theory Spec2Isabelle
  imports Complex_Main
begin

section \<open>Python floats: IEEE 754 binary64 rounding on rationals\<close>

text \<open>
  Python's \<^verbatim>\<open>float\<close> is an IEEE 754 binary64 number. Every float operation of the
  sources (\<^verbatim>\<open>int / int\<close>, \<^verbatim>\<open>int * float\<close>, \<^verbatim>\<open>float + float\<close>, a decimal literal) returns
  the exact result rounded to the nearest number with a 53-bit significand, ties to the
  even significand. \<open>fl\<close> is that rounding on the rationals. The exponent is unbounded:
  the model coincides with binary64 wherever no overflow or underflow occurs, which is
  the case for every magnitude handled here (between \<open>2\<^sup>-\<^sup>6\<^sup>0\<close> and \<open>2\<^sup>6\<^sup>0\<close>).
\<close>

text \<open>\<open>bit_length n\<close> is Python's \<^verbatim>\<open>n.bit_length()\<close> for \<open>n \<ge> 0\<close>.\<close>

function bit_length :: "int \<Rightarrow> nat" where
  "bit_length n = (if n \<le> 0 then 0 else Suc (bit_length (n div 2)))"
  by pat_completeness auto
termination
  by (relation "measure nat") auto

declare bit_length.simps [simp del]

definition round_even :: "rat \<Rightarrow> int" where
  "round_even q = (let f = \<lfloor>q\<rfloor>; r = q - of_int f in
     if r < 1/2 then f else if 1/2 < r then f + 1 else if even f then f else f + 1)"

definition expo :: "rat \<Rightarrow> int" where
  "expo q = (let (a, b) = quotient_of q;
                 k = int (bit_length a) - int (bit_length b)
             in if 2 powi k \<le> q then k else k - 1)"

definition fl :: "rat \<Rightarrow> rat" where
  "fl q = (if q = 0 then 0 else
     let u = 2 powi (expo \<bar>q\<bar> - 52)
     in sgn q * of_int (round_even (\<bar>q\<bar> / u)) * u)"


subsection \<open>Properties of the rounding\<close>

lemma bit_length_bounds:
  "0 < n \<Longrightarrow> 2 ^ (bit_length n - 1) \<le> n \<and> n < 2 ^ bit_length n"
proof (induction n rule: bit_length.induct)
  case (1 n)
  show ?case
  proof (cases "n = 1")
    case True
    then show ?thesis by (simp add: bit_length.simps)
  next
    case False
    with "1.prems" have pos: "0 < n div 2" by simp
    have ih: "2 ^ (bit_length (n div 2) - 1) \<le> n div 2 \<and> n div 2 < 2 ^ bit_length (n div 2)"
      using "1.IH" "1.prems" pos by simp
    have bl: "bit_length n = Suc (bit_length (n div 2))"
      using "1.prems" by (subst bit_length.simps) simp
    have bpos: "0 < bit_length (n div 2)"
      using pos by (subst bit_length.simps) simp
    then obtain b where b: "bit_length (n div 2) = Suc b"
      by (cases "bit_length (n div 2)") auto
    from ih b have "2 * 2 ^ b \<le> 2 * (n div 2)" by simp
    then have lo: "2 ^ Suc b \<le> n" by simp
    from ih b have "n div 2 + 1 \<le> 2 ^ Suc b" by simp
    then have hi: "n < 2 ^ Suc (Suc b)" by simp
    show ?thesis using lo hi bl b by simp
  qed
qed

lemma bit_length_lower: "0 < n \<Longrightarrow> (2::rat) powi (int (bit_length n) - 1) \<le> of_int n"
proof -
  assume n: "0 < n"
  then have pos: "0 < bit_length n" by (subst bit_length.simps) simp
  from bit_length_bounds [OF n] have "(2::int) ^ (bit_length n - 1) \<le> n" by (rule conjunct1)
  then have "(of_int ((2::int) ^ (bit_length n - 1)) :: rat) \<le> of_int n"
    by (simp only: of_int_le_iff)
  then have "(2::rat) ^ (bit_length n - 1) \<le> of_int n"
    by (simp only: of_int_power of_int_numeral)
  then have "(2::rat) powi (int (bit_length n - 1)) \<le> of_int n"
    by (simp only: power_int_of_nat)
  moreover have "int (bit_length n - 1) = int (bit_length n) - 1" using pos by linarith
  ultimately show ?thesis by (simp only:)
qed

lemma bit_length_upper: "0 < n \<Longrightarrow> (of_int n :: rat) < 2 powi (int (bit_length n))"
proof -
  assume n: "0 < n"
  from bit_length_bounds [OF n] have "n < (2::int) ^ bit_length n" by (rule conjunct2)
  then have "(of_int n :: rat) < of_int ((2::int) ^ bit_length n)"
    by (simp only: of_int_less_iff)
  then have "(of_int n :: rat) < 2 ^ bit_length n"
    by (simp only: of_int_power of_int_numeral)
  then show ?thesis by (simp only: power_int_of_nat)
qed

lemma powi2_less_iff: "((2::rat) powi a < 2 powi b) = (a < b)"
proof
  assume "(2::rat) powi a < 2 powi b"
  show "a < b"
  proof (rule ccontr)
    assume "\<not> a < b"
    then have "b \<le> a" by simp
    then have "(2::rat) powi b \<le> 2 powi a" by (rule power_int_increasing) simp
    with \<open>(2::rat) powi a < 2 powi b\<close> show False by simp
  qed
next
  assume "a < b"
  then show "(2::rat) powi a < 2 powi b" by (rule power_int_strict_increasing) simp
qed

lemma powi2_le_iff: "((2::rat) powi a \<le> 2 powi b) = (a \<le> b)"
  by (metis linorder_not_less powi2_less_iff)

lemma expo_bounds:
  assumes "0 < q"
  shows "2 powi (expo q) \<le> q \<and> q < 2 powi (expo q + 1)"
proof -
  obtain a b where ab: "quotient_of q = (a, b)" by (cases "quotient_of q")
  have b: "0 < b" using ab quotient_of_denom_pos by blast
  have q: "q = of_int a / of_int b" using ab by (rule quotient_of_div)
  have a: "0 < a"
  proof (rule ccontr)
    assume "\<not> 0 < a"
    then have "(of_int a :: rat) \<le> 0" by simp
    then have "q \<le> 0" unfolding q using b by (simp add: divide_le_0_iff)
    with assms show False by simp
  qed
  define k where "k = int (bit_length a) - int (bit_length b)"
  have la: "(2::rat) powi (int (bit_length a) - 1) \<le> of_int a" using a by (rule bit_length_lower)
  have ua: "(of_int a :: rat) < 2 powi (int (bit_length a))" using a by (rule bit_length_upper)
  have lb: "(2::rat) powi (int (bit_length b) - 1) \<le> of_int b" using b by (rule bit_length_lower)
  have ub: "(of_int b :: rat) < 2 powi (int (bit_length b))" using b by (rule bit_length_upper)
  have bpos: "(0::rat) < of_int b" using b by simp
  have lower: "2 powi (k - 1) \<le> q"
  proof -
    have e1: "(2::rat) powi (k - 1) * 2 powi (int (bit_length b)) = 2 powi (int (bit_length a) - 1)"
      using power_int_add [of "2::rat" "k - 1" "int (bit_length b)"] by (simp add: k_def)
    have "(2::rat) powi (k - 1) * of_int b \<le> 2 powi (k - 1) * 2 powi (int (bit_length b))"
      using ub by (intro mult_left_mono) simp_all
    then have "(2::rat) powi (k - 1) * of_int b \<le> of_int a"
      using e1 la by linarith
    then show ?thesis unfolding q using bpos by (simp only: pos_le_divide_eq)
  qed
  have upper: "q < 2 powi (k + 1)"
  proof -
    have e2: "(2::rat) powi (k + 1) * 2 powi (int (bit_length b) - 1) = 2 powi (int (bit_length a))"
      using power_int_add [of "2::rat" "k + 1" "int (bit_length b) - 1"] by (simp add: k_def)
    have "(2::rat) powi (k + 1) * 2 powi (int (bit_length b) - 1) \<le> 2 powi (k + 1) * of_int b"
      using lb by (intro mult_left_mono) simp_all
    then have "of_int a < (2::rat) powi (k + 1) * of_int b"
      using e2 ua by linarith
    then show ?thesis unfolding q using bpos by (simp only: pos_divide_less_eq)
  qed
  have e: "expo q = (if 2 powi k \<le> q then k else k - 1)"
    by (simp add: expo_def ab k_def Let_def)
  show ?thesis
  proof (cases "2 powi k \<le> q")
    case True
    then show ?thesis using e upper by simp
  next
    case False
    then show ?thesis using e lower by simp
  qed
qed


lemma expo_mono:
  assumes "0 < q" "q \<le> r"
  shows "expo q \<le> expo r"
proof -
  have r: "0 < r" using assms by simp
  have "(2::rat) powi (expo q) \<le> q" using expo_bounds [OF assms(1)] by simp
  also have "q \<le> r" by fact
  also have "r < 2 powi (expo r + 1)" using expo_bounds [OF r] by simp
  finally have "expo q < expo r + 1" by (simp add: powi2_less_iff)
  then show ?thesis by simp
qed

lemma round_even_of_int: "round_even (of_int n) = n"
  by (simp add: round_even_def)

lemma round_even_cases: "round_even q = \<lfloor>q\<rfloor> \<or> round_even q = \<lfloor>q\<rfloor> + 1"
  by (simp add: round_even_def Let_def)

lemma round_even_mono:
  assumes "q \<le> r"
  shows "round_even q \<le> round_even r"
proof (cases "\<lfloor>q\<rfloor> = \<lfloor>r\<rfloor>")
  case True
  have "q - of_int \<lfloor>r\<rfloor> \<le> r - of_int \<lfloor>r\<rfloor>" using assms by simp
  then show ?thesis using True by (auto simp add: round_even_def Let_def)
next
  case False
  have "\<lfloor>q\<rfloor> \<le> \<lfloor>r\<rfloor>" using assms by (rule floor_mono)
  with False have "\<lfloor>q\<rfloor> + 1 \<le> \<lfloor>r\<rfloor>" by simp
  moreover have "round_even q \<le> \<lfloor>q\<rfloor> + 1" using round_even_cases [of q] by auto
  moreover have "\<lfloor>r\<rfloor> \<le> round_even r" using round_even_cases [of r] by auto
  ultimately show ?thesis by linarith
qed

lemma round_even_ge: "of_int n \<le> q \<Longrightarrow> n \<le> round_even q"
  using round_even_mono [of "of_int n" q] by (simp add: round_even_of_int)

lemma round_even_le: "q \<le> of_int n \<Longrightarrow> round_even q \<le> n"
  using round_even_mono [of q "of_int n"] by (simp add: round_even_of_int)

lemma fl_pos_eq:
  "0 < q \<Longrightarrow> fl q = of_int (round_even (q / 2 powi (expo q - 52))) * 2 powi (expo q - 52)"
  by (simp add: fl_def Let_def)

lemma fl_neg: "fl (- q) = - fl q"
  by (simp add: fl_def Let_def)

lemma fl_zero: "fl 0 = 0"
  by (simp add: fl_def)

lemma powi2_split: "(2::rat) powi (e - 52) * 2 powi 52 = 2 powi e"
  using power_int_add [of "2::rat" "e - 52" 52] by simp

lemma powi2_split1: "(2::rat) powi (e - 52) * 2 powi 53 = 2 powi (e + 1)"
proof -
  have "(2::rat) powi ((e - 52) + 53) = 2 powi (e - 52) * 2 powi 53"
    by (rule power_int_add) simp
  moreover have "(e - 52) + 53 = e + 1" by simp
  ultimately show ?thesis by (simp only:)
qed

lemma fl_lower:
  assumes "0 < q"
  shows "2 powi (expo q) \<le> fl q"
proof -
  define u :: rat where "u = 2 powi (expo q - 52)"
  have u: "0 < u" by (simp add: u_def)
  have "2 powi (expo q) \<le> q" using expo_bounds [OF assms] by simp
  then have "u * 2 powi 52 \<le> q" by (simp only: u_def powi2_split)
  then have "2 powi 52 \<le> q / u" using u by (simp add: pos_le_divide_eq mult.commute)
  then have "(of_int (2 ^ 52) :: rat) \<le> q / u" by simp
  then have "2 ^ 52 \<le> round_even (q / u)" by (rule round_even_ge)
  then have "(of_int (2 ^ 52) :: rat) \<le> of_int (round_even (q / u))"
    by (simp only: of_int_le_iff)
  then have a: "(of_int (2 ^ 52) :: rat) * u \<le> of_int (round_even (q / u)) * u"
    using u by (simp only: mult_le_cancel_right_pos)
  have b: "(of_int (2 ^ 52) :: rat) * u = 2 powi (expo q)"
    using powi2_split [of "expo q"] by (simp add: u_def mult.commute)
  have c: "fl q = of_int (round_even (q / u)) * u"
    using assms by (simp only: fl_pos_eq u_def)
  from a show ?thesis unfolding b c .
qed

lemma fl_upper:
  assumes "0 < q"
  shows "fl q \<le> 2 powi (expo q + 1)"
proof -
  define u :: rat where "u = 2 powi (expo q - 52)"
  have u: "0 < u" by (simp add: u_def)
  have "q < 2 powi (expo q + 1)" using expo_bounds [OF assms] by simp
  then have "q \<le> u * 2 powi 53" by (simp only: u_def powi2_split1)
  then have "q / u \<le> 2 powi 53" using u by (simp add: pos_divide_le_eq mult.commute)
  then have "q / u \<le> (of_int (2 ^ 53) :: rat)" by simp
  then have "round_even (q / u) \<le> 2 ^ 53" by (rule round_even_le)
  then have "(of_int (round_even (q / u)) :: rat) \<le> of_int (2 ^ 53)"
    by (simp only: of_int_le_iff)
  then have a: "of_int (round_even (q / u)) * u \<le> (of_int (2 ^ 53) :: rat) * u"
    using u by (simp only: mult_le_cancel_right_pos)
  have b: "(of_int (2 ^ 53) :: rat) * u = 2 powi (expo q + 1)"
    using powi2_split1 [of "expo q"] by (simp add: u_def mult.commute)
  have c: "fl q = of_int (round_even (q / u)) * u"
    using assms by (simp only: fl_pos_eq u_def)
  from a show ?thesis unfolding b c .
qed

lemma fl_pos: "0 < q \<Longrightarrow> 0 < fl q"
proof -
  assume q: "0 < q"
  have "(0::rat) < 2 powi (expo q)" by simp
  then show ?thesis using fl_lower [OF q] by (rule less_le_trans)
qed

lemma fl_mono_pos:
  assumes "0 < q" "q \<le> r"
  shows "fl q \<le> fl r"
proof -
  have r: "0 < r" using assms by simp
  have le: "expo q \<le> expo r" using assms by (rule expo_mono)
  show ?thesis
  proof (cases "expo q = expo r")
    case True
    define u :: rat where "u = 2 powi (expo r - 52)"
    have u: "0 < u" by (simp add: u_def)
    have "q / u \<le> r / u" using assms(2) u by (simp add: divide_right_mono)
    then have "round_even (q / u) \<le> round_even (r / u)" by (rule round_even_mono)
    then have "(of_int (round_even (q / u)) :: rat) \<le> of_int (round_even (r / u))"
      by (simp only: of_int_le_iff)
    then have "of_int (round_even (q / u)) * u \<le> of_int (round_even (r / u)) * u"
      using u by (simp only: mult_le_cancel_right_pos)
    then show ?thesis using assms(1) r True by (simp add: fl_pos_eq u_def)
  next
    case False
    with le have "expo q + 1 \<le> expo r" by simp
    then have "(2::rat) powi (expo q + 1) \<le> 2 powi (expo r)" by (simp only: powi2_le_iff)
    moreover have "fl q \<le> 2 powi (expo q + 1)" using assms(1) by (rule fl_upper)
    moreover have "2 powi (expo r) \<le> fl r" using r by (rule fl_lower)
    ultimately show ?thesis by linarith
  qed
qed

lemma fl_mono:
  assumes "q \<le> r"
  shows "fl q \<le> fl r"
proof -
  consider "0 < q" | "q \<le> 0" "0 < r" | "q = 0" "r \<le> 0" | "q < 0" "r = 0" | "q < 0" "r < 0"
    by fastforce
  then show ?thesis
  proof cases
    case 1
    then show ?thesis using assms by (rule fl_mono_pos)
  next
    case 2
    have "fl q \<le> 0"
    proof (cases "q = 0")
      case True
      then show ?thesis by (simp add: fl_zero)
    next
      case False
      with 2 have "0 < - q" by simp
      then have "0 < fl (- q)" by (rule fl_pos)
      then show ?thesis by (simp add: fl_neg)
    qed
    moreover have "0 < fl r" using 2 by (simp add: fl_pos)
    ultimately show ?thesis by simp
  next
    case 3
    with assms have "r = 0" by simp
    with 3 show ?thesis by simp
  next
    case 4
    then have "0 < fl (- q)" by (simp add: fl_pos)
    then show ?thesis using 4 by (simp add: fl_neg fl_zero)
  next
    case 5
    then have "0 < - r" "- r \<le> - q" using assms by simp_all
    then have "fl (- r) \<le> fl (- q)" by (rule fl_mono_pos)
    then show ?thesis by (simp add: fl_neg)
  qed
qed

lemma fl_exact:
  assumes "0 < m" "m < 2 ^ 53"
  shows "fl (of_int m * 2 powi k) = of_int m * 2 powi k"
proof -
  define q :: rat where "q = of_int m * 2 powi k"
  have q: "0 < q" using assms(1) by (simp add: q_def)
  define e where "e = expo q"
  have "(of_int m :: rat) < of_int (2 ^ 53)" using assms(2) by (simp only: of_int_less_iff)
  then have "(of_int m :: rat) < 2 powi 53" by simp
  then have "q < 2 powi 53 * 2 powi k" by (simp add: q_def)
  also have "(2::rat) powi 53 * 2 powi k = 2 powi (53 + k)"
    by (rule power_int_add [symmetric]) simp
  finally have "q < 2 powi (53 + k)" .
  moreover have "2 powi e \<le> q" using expo_bounds [OF q] by (simp add: e_def)
  ultimately have "(2::rat) powi e < 2 powi (53 + k)" by simp
  then have "e < 53 + k" by (simp only: powi2_less_iff)
  then have j: "0 \<le> k - (e - 52)" by simp
  define j where "j = nat (k - (e - 52))"
  have kj: "k = (e - 52) + int j" using j by (simp add: j_def)
  have "(2::rat) powi k = 2 powi (e - 52) * 2 powi (int j)"
    by (subst kj, rule power_int_add) simp
  then have pk: "(2::rat) powi k = 2 powi (e - 52) * 2 ^ j" by (simp only: power_int_of_nat)
  have "q / 2 powi (e - 52) = of_int m * 2 ^ j" by (simp add: q_def pk)
  also have "\<dots> = of_int (m * 2 ^ j)" by simp
  finally have "round_even (q / 2 powi (e - 52)) = m * 2 ^ j"
    by (simp only: round_even_of_int)
  then have "fl q = of_int (m * 2 ^ j) * 2 powi (e - 52)"
    using q by (simp add: fl_pos_eq e_def)
  also have "\<dots> = q" by (simp add: q_def pk)
  finally show ?thesis by (simp only: q_def)
qed

lemma fl_of_int:
  assumes "\<bar>n\<bar> < 2 ^ 53"
  shows "fl (of_int n) = of_int n"
proof -
  consider "n = 0" | "0 < n" | "n < 0" by linarith
  then show ?thesis
  proof cases
    case 1
    then show ?thesis by (simp add: fl_zero)
  next
    case 2
    with assms have "n < 2 ^ 53" by simp
    with 2 show ?thesis using fl_exact [of n 0] by simp
  next
    case 3
    with assms have "0 < - n" "- n < 2 ^ 53" by simp_all
    then have "fl (of_int (- n)) = of_int (- n)" using fl_exact [of "- n" 0] by simp
    then show ?thesis by (simp add: fl_neg)
  qed
qed


section \<open>Python values: exceptions, truncation, ranges, indexing\<close>

text \<open>
  Exceptions are values of \<open>py_error\<close>; a function that can raise returns
  \<open>py_error + 'a\<close>, and \<open>py_bind\<close> sequences two steps that may raise. \<open>py_int\<close> is
  \<^verbatim>\<open>int(x)\<close> on a float (truncation towards zero). \<open>py_float n\<close> is the conversion of an
  int to a float, which raises \<open>OverflowError\<close> when the nearest float would be \<open>2\<^sup>1\<^sup>0\<^sup>2\<^sup>4\<close> or
  more in magnitude. \<open>py_int_mul_float n c\<close> is \<^verbatim>\<open>n * c\<close> for an int \<open>n\<close> and a float \<open>c\<close>
  (the int is converted first), and \<open>int_of_product n c\<close> is \<^verbatim>\<open>int(n * c)\<close>;
  \<open>int_times_float n c\<close> is the value of the product when nothing overflows.
  \<open>float_to_int x\<close> is \<^verbatim>\<open>int(x)\<close> on the result \<open>x\<close> of a float operation, where a magnitude of
  \<open>2\<^sup>1\<^sup>0\<^sup>2\<^sup>4\<close> or more stands for an infinity, on which \<^verbatim>\<open>int\<close> raises \<open>OverflowError\<close>.
  \<open>py_true_div a b\<close> is \<^verbatim>\<open>a / b\<close> on two ints (correctly rounded, \<open>ZeroDivisionError\<close>
  for a zero divisor, \<open>OverflowError\<close> for a quotient too large for a float).
  \<open>py_range a b\<close> is \<^verbatim>\<open>range(a, b)\<close>, and \<open>py_get xs i\<close> is \<^verbatim>\<open>xs[i]\<close> with Python's
  negative indices.
\<close>

datatype py_error = ValueError | IndexError | ZeroDivisionError | OverflowError

definition py_bind :: "py_error + 'a \<Rightarrow> ('a \<Rightarrow> py_error + 'b) \<Rightarrow> py_error + 'b" where
  "py_bind m f = (case m of Inl e \<Rightarrow> Inl e | Inr x \<Rightarrow> f x)"

definition py_int :: "rat \<Rightarrow> int" where
  "py_int x = (if 0 \<le> x then \<lfloor>x\<rfloor> else \<lceil>x\<rceil>)"

definition py_float :: "int \<Rightarrow> py_error + rat" where
  "py_float n = (if of_int (2 ^ 1024) \<le> \<bar>fl (of_int n)\<bar> then Inl OverflowError else Inr (fl (of_int n)))"

definition py_int_mul_float :: "int \<Rightarrow> rat \<Rightarrow> py_error + rat" where
  "py_int_mul_float n c = py_bind (py_float n) (\<lambda>x. Inr (fl (x * c)))"

definition float_to_int :: "rat \<Rightarrow> py_error + int" where
  "float_to_int x = (if of_int (2 ^ 1024) \<le> \<bar>x\<bar> then Inl OverflowError else Inr (py_int x))"

definition int_of_product :: "int \<Rightarrow> rat \<Rightarrow> py_error + int" where
  "int_of_product n c = py_bind (py_int_mul_float n c) float_to_int"

definition int_times_float :: "int \<Rightarrow> rat \<Rightarrow> rat" where
  "int_times_float n c = fl (fl (of_int n) * c)"

definition py_true_div :: "int \<Rightarrow> int \<Rightarrow> py_error + rat" where
  "py_true_div a b =
     (if b = 0 then Inl ZeroDivisionError
      else if of_int (2 ^ 1024) \<le> \<bar>fl (of_int a / of_int b)\<bar> then Inl OverflowError
      else Inr (fl (of_int a / of_int b)))"

definition py_range :: "int \<Rightarrow> int \<Rightarrow> int list" where
  "py_range a b = [a..b - 1]"

definition py_get :: "'a list \<Rightarrow> int \<Rightarrow> py_error + 'a" where
  "py_get xs i =
     (if 0 \<le> i \<and> i < int (length xs) then Inr (xs ! nat i)
      else if - int (length xs) \<le> i \<and> i < 0 then Inr (xs ! nat (int (length xs) + i))
      else Inl IndexError)"

lemma py_int_mono: "x \<le> y \<Longrightarrow> py_int x \<le> py_int y"
proof -
  assume xy: "x \<le> y"
  consider "0 \<le> x" | "x < 0" "y < 0" | "x < 0" "0 \<le> y" by linarith
  then show ?thesis
  proof cases
    case 1
    then show ?thesis using xy by (simp add: py_int_def floor_mono)
  next
    case 2
    then show ?thesis using xy by (simp add: py_int_def ceiling_mono)
  next
    case 3
    then have "\<lceil>x\<rceil> \<le> 0" "0 \<le> \<lfloor>y\<rfloor>" by (simp_all add: ceiling_le_iff)
    moreover have "py_int x = \<lceil>x\<rceil>" "py_int y = \<lfloor>y\<rfloor>"
      using 3 by (simp_all add: py_int_def)
    ultimately show ?thesis by linarith
  qed
qed

lemma py_int_of_int: "py_int (of_int n) = n"
  by (simp add: py_int_def)

lemma py_int_fl_ge:
  assumes "of_int N \<le> x" "\<bar>N\<bar> < 2 ^ 53"
  shows "N \<le> py_int (fl x)"
proof -
  have "fl (of_int N) \<le> fl x" using assms(1) by (rule fl_mono)
  then have "of_int N \<le> fl x" using assms(2) by (simp only: fl_of_int)
  then have "py_int (of_int N) \<le> py_int (fl x)" by (rule py_int_mono)
  then show ?thesis by (simp only: py_int_of_int)
qed

lemma py_int_fl_le:
  assumes "x \<le> of_int N" "\<bar>N\<bar> < 2 ^ 53"
  shows "py_int (fl x) \<le> N"
proof -
  have "fl x \<le> fl (of_int N)" using assms(1) by (rule fl_mono)
  then have "fl x \<le> of_int N" using assms(2) by (simp only: fl_of_int)
  then have "py_int (fl x) \<le> py_int (of_int N)" by (rule py_int_mono)
  then show ?thesis by (simp only: py_int_of_int)
qed

lemma quarter: "(2::rat) powi (- 2) = 1 / 4"
  by (simp add: power_int_minus_divide)

lemma py_int_fl_lt_pow:
  assumes "x \<le> of_int N - 1 / 2 ^ j" "0 < N" "N * 2 ^ j < 2 ^ 53" "0 < j"
  shows "py_int (fl x) < N"
proof -
  have "1 \<le> N" using assms(2) by simp
  then have a: "1 * 2 ^ j \<le> N * (2 ^ j :: int)" by (intro mult_right_mono) simp_all
  have "(2::int) ^ 1 \<le> 2 ^ j" using assms(4) by (intro power_increasing) simp_all
  then have b: "2 \<le> (2 ^ j :: int)" by simp
  define t :: int where "t = 2 ^ j"
  have "2 \<le> N * t" using a b unfolding t_def [symmetric] by linarith
  then have "2 \<le> N * (2 ^ j :: int)" by (simp only: t_def)
  then have m: "0 < N * 2 ^ j - 1" "N * 2 ^ j - 1 < 2 ^ 53" using assms(3) by simp_all
  have p: "(2::rat) powi (- int j) = 1 / 2 ^ j" by (simp add: power_int_minus_divide)
  have r: "of_int N - 1 / 2 ^ j = (of_int (N * 2 ^ j - 1) :: rat) * 2 powi (- int j)"
    by (simp add: p field_simps)
  have "fl x \<le> fl (of_int N - 1 / 2 ^ j)" using assms(1) by (rule fl_mono)
  also have "\<dots> = of_int N - 1 / 2 ^ j" unfolding r using m by (rule fl_exact)
  finally have b: "fl x \<le> of_int N - 1 / 2 ^ j" .
  have "(0::rat) < 1 / 2 ^ j" by simp
  with b have lt: "fl x < of_int N" by linarith
  show ?thesis
  proof (cases "0 \<le> fl x")
    case True
    have "of_int \<lfloor>fl x\<rfloor> \<le> fl x" by simp
    with lt have "(of_int \<lfloor>fl x\<rfloor> :: rat) < of_int N" by linarith
    then have "\<lfloor>fl x\<rfloor> < N" by (simp only: of_int_less_iff)
    then show ?thesis using True by (simp add: py_int_def)
  next
    case False
    then have "\<lceil>fl x\<rceil> \<le> 0" by (simp add: ceiling_le_iff)
    moreover have "py_int (fl x) = \<lceil>fl x\<rceil>" using False by (simp add: py_int_def)
    ultimately show ?thesis using assms(2) by linarith
  qed
qed

lemma py_int_fl_lt:
  assumes "x \<le> of_int N - 1 / 16" "0 < N" "N < 2 ^ 49"
  shows "py_int (fl x) < N"
  using py_int_fl_lt_pow [of x N 4] assms by simp

lemma int_times_float_eq:
  "\<bar>n\<bar> < 2 ^ 53 \<Longrightarrow> int_times_float n c = fl (of_int n * c)"
  by (simp add: int_times_float_def fl_of_int)

lemma py_get_in_range:
  "0 \<le> i \<Longrightarrow> i < int (length xs) \<Longrightarrow> py_get xs i = Inr (xs ! nat i)"
  by (simp add: py_get_def)

lemma set_py_range: "set (py_range a b) = {x. a \<le> x \<and> x < b}"
  by (auto simp add: py_range_def)

lemma py_range_nonempty: "a < b \<Longrightarrow> py_range a b \<noteq> []"
  by (simp add: py_range_def)

lemma py_bind_Inr [simp]: "py_bind (Inr x) f = f x"
  by (simp add: py_bind_def)

lemma py_bind_Inl [simp]: "py_bind (Inl e) f = Inl e"
  by (simp add: py_bind_def)

lemma fl_abs: "\<bar>fl q\<bar> = fl \<bar>q\<bar>"
proof (cases "0 \<le> q")
  case True
  then have "fl 0 \<le> fl q" by (rule fl_mono)
  then show ?thesis using True by (simp add: fl_zero)
next
  case False
  then have "fl q \<le> fl 0" by (intro fl_mono) simp
  then show ?thesis using False by (simp add: fl_zero fl_neg)
qed

lemma fl_bounded_le:
  assumes "\<bar>q\<bar> \<le> 2 ^ 1023"
  shows "\<bar>fl q\<bar> \<le> 2 ^ 1023"
proof -
  have "fl (of_int 1 * 2 powi 1023) = of_int 1 * 2 powi 1023" by (rule fl_exact) simp_all
  then have e: "fl (2 ^ 1023) = 2 ^ 1023" by simp
  have "fl \<bar>q\<bar> \<le> fl (2 ^ 1023)" using assms by (rule fl_mono)
  then show ?thesis by (simp only: fl_abs e)
qed

lemma fl_bounded:
  assumes "\<bar>q\<bar> \<le> 2 ^ 1023"
  shows "\<bar>fl q\<bar> < 2 ^ 1024"
proof -
  have "\<bar>fl q\<bar> \<le> 2 ^ 1023" using assms by (rule fl_bounded_le)
  moreover have "(2 :: rat) ^ 1023 < 2 ^ 1024" by simp
  ultimately show ?thesis by (rule le_less_trans)
qed

lemma py_float_ok:
  assumes "\<bar>n\<bar> \<le> 2 ^ 1023"
  shows "py_float n = Inr (fl (of_int n))" "\<bar>fl (of_int n)\<bar> \<le> 2 ^ 1023"
proof -
  have "\<bar>of_int n :: rat\<bar> \<le> of_int (2 ^ 1023)"
    using assms by (simp only: of_int_abs [symmetric] of_int_le_iff)
  then have n: "\<bar>of_int n :: rat\<bar> \<le> 2 ^ 1023" by simp
  then have "\<bar>fl (of_int n)\<bar> < 2 ^ 1024" by (rule fl_bounded)
  then show "py_float n = Inr (fl (of_int n))" by (simp add: py_float_def)
  show "\<bar>fl (of_int n)\<bar> \<le> 2 ^ 1023" using n by (rule fl_bounded_le)
qed

lemma float_to_int_ok:
  assumes "\<bar>q\<bar> \<le> 2 ^ 1023"
  shows "float_to_int (fl q) = Inr (py_int (fl q))"
  using fl_bounded [OF assms] by (simp add: float_to_int_def)

lemma int_of_product_ok:
  assumes "\<bar>n\<bar> \<le> 2 ^ 1023" "\<bar>c\<bar> \<le> 1"
  shows "int_of_product n c = Inr (py_int (int_times_float n c))"
proof -
  have "\<bar>fl (of_int n) * c\<bar> = \<bar>fl (of_int n)\<bar> * \<bar>c\<bar>" by (rule abs_mult)
  also have "\<dots> \<le> 2 ^ 1023 * 1"
    using py_float_ok(2) [OF assms(1)] assms(2) by (intro mult_mono) simp_all
  finally have "\<bar>fl (of_int n) * c\<bar> \<le> 2 ^ 1023" by simp
  then have "float_to_int (fl (fl (of_int n) * c)) = Inr (py_int (fl (fl (of_int n) * c)))"
    by (rule float_to_int_ok)
  then show ?thesis
    using py_float_ok(1) [OF assms(1)]
    by (simp add: int_of_product_def py_int_mul_float_def int_times_float_def)
qed

lemma py_true_div_ok:
  assumes "b \<noteq> 0" "\<bar>a\<bar> \<le> 2 ^ 1023"
  shows "py_true_div a b = Inr (fl (of_int a / of_int b))"
proof -
  have "\<bar>of_int a :: rat\<bar> \<le> of_int (2 ^ 1023)"
    using assms(2) by (simp only: of_int_abs [symmetric] of_int_le_iff)
  then have a: "\<bar>of_int a :: rat\<bar> \<le> 2 ^ 1023" by simp
  have "1 \<le> \<bar>b\<bar>" using assms(1) by simp
  then have "(1 :: rat) \<le> of_int \<bar>b\<bar>" by (simp only: of_int_1_le_iff)
  then have "(1 :: rat) \<le> \<bar>of_int b\<bar>" by simp
  then have "\<bar>of_int a :: rat\<bar> * 1 \<le> \<bar>of_int a\<bar> * \<bar>of_int b\<bar>"
    by (intro mult_left_mono) simp_all
  moreover have "(0 :: rat) < \<bar>of_int b\<bar>" using assms(1) by simp
  ultimately have "\<bar>of_int a :: rat\<bar> / \<bar>of_int b\<bar> \<le> \<bar>of_int a\<bar>"
    by (simp only: divide_le_eq mult_1_right if_True)
  then have "\<bar>of_int a / of_int b :: rat\<bar> \<le> \<bar>of_int a\<bar>"
    by (simp only: abs_divide)
  then have "\<bar>of_int a / of_int b :: rat\<bar> \<le> 2 ^ 1023" using a by (rule order_trans)
  then have "\<bar>fl (of_int a / of_int b)\<bar> < 2 ^ 1024" by (rule fl_bounded)
  then show ?thesis using assms(1) by (simp add: py_true_div_def)
qed

section \<open>color_mapper.py: the occlusion locator \<open>analyze_white_tape\<close>\<close>

text \<open>
  \<open>TAPE_SEARCH_REGIONS\<close> holds the module's configuration; each decimal literal is the
  nearest float. \<open>py_max_key f xs\<close> is \<^verbatim>\<open>max(xs, key=f)\<close>: it raises \<open>ValueError\<close>
  on an empty sequence and returns the first element with the largest key. \<open>peak_key\<close>
  is the lambda of the source, \<open>go_left\<close> and \<open>go_right\<close> are the two while loops of
  \<^verbatim>\<open>find_tape_edges\<close>. \<open>tape_zones\<close> is the first four assignments of
  \<^verbatim>\<open>analyze_white_tape\<close>, \<open>tape_threshold\<close> the fifth, \<open>find_peaks\<close> the two calls of
  \<^verbatim>\<open>max\<close>; \<open>tape_peaks\<close> is the function up to the two seeds, named so that theorems can
  speak about the seeds.
\<close>

record tape_search_regions =
  left_start :: rat
  left_end :: rat
  right_start :: rat
  right_end :: rat
  height_threshold :: rat

definition TAPE_SEARCH_REGIONS :: tape_search_regions where
  "TAPE_SEARCH_REGIONS = \<lparr> left_start = fl (25/100), left_end = fl (45/100),
     right_start = fl (55/100), right_end = fl (75/100), height_threshold = fl (20/100) \<rparr>"

fun key_all :: "(int \<Rightarrow> py_error + int) \<Rightarrow> int list \<Rightarrow> py_error + (int \<times> int) list" where
  "key_all f [] = Inr []"
| "key_all f (x # xs) =
     (case f x of Inl e \<Rightarrow> Inl e
      | Inr k \<Rightarrow> (case key_all f xs of Inl e \<Rightarrow> Inl e | Inr r \<Rightarrow> Inr ((x, k) # r)))"

fun best :: "int \<times> int \<Rightarrow> (int \<times> int) list \<Rightarrow> int \<times> int" where
  "best b [] = b"
| "best b (p # ps) = best (if snd b < snd p then p else b) ps"

definition py_max_key :: "(int \<Rightarrow> py_error + int) \<Rightarrow> int list \<Rightarrow> py_error + int" where
  "py_max_key f xs =
     (case xs of [] \<Rightarrow> Inl ValueError
      | _ \<Rightarrow> (case key_all f xs of Inl e \<Rightarrow> Inl e
               | Inr [] \<Rightarrow> Inl ValueError
               | Inr (p # ps) \<Rightarrow> Inr (fst (best p ps))))"

definition peak_key :: "int list \<Rightarrow> int \<Rightarrow> int \<Rightarrow> py_error + int" where
  "peak_key counts thr x =
     (case py_get counts x of Inl e \<Rightarrow> Inl e
      | Inr c \<Rightarrow> if c > thr then Inr c else Inr 0)"

function go_left :: "int list \<Rightarrow> int \<Rightarrow> int \<Rightarrow> py_error + int" where
  "go_left counts thr left_edge =
     (if left_edge > 0 then
        (case py_get counts left_edge of Inl e \<Rightarrow> Inl e
         | Inr c \<Rightarrow> if c > thr then go_left counts thr (left_edge - 1) else Inr left_edge)
      else Inr left_edge)"
  by pat_completeness auto
termination
  by (relation "measure (\<lambda>(counts, thr, left_edge). nat left_edge)") auto

function go_right :: "int list \<Rightarrow> int \<Rightarrow> int \<Rightarrow> int \<Rightarrow> py_error + int" where
  "go_right counts width thr right_edge =
     (if right_edge < width - 1 then
        (case py_get counts right_edge of Inl e \<Rightarrow> Inl e
         | Inr c \<Rightarrow> if c > thr then go_right counts width thr (right_edge + 1) else Inr right_edge)
      else Inr right_edge)"
  by pat_completeness auto
termination
  by (relation "measure (\<lambda>(counts, width, thr, right_edge). nat (width - 1 - right_edge))") auto

declare go_left.simps [simp del] go_right.simps [simp del]

definition find_tape_edges :: "int list \<Rightarrow> int \<Rightarrow> int \<Rightarrow> int \<Rightarrow> py_error + (int \<times> int)" where
  "find_tape_edges counts width thr peak_pos =
     (case go_left counts thr peak_pos of Inl e \<Rightarrow> Inl e
      | Inr left_edge \<Rightarrow>
          (case go_right counts width thr peak_pos of Inl e \<Rightarrow> Inl e
           | Inr right_edge \<Rightarrow> Inr (left_edge, right_edge)))"

definition tape_zones :: "int \<Rightarrow> py_error + (int \<times> int \<times> int \<times> int)" where
  "tape_zones width =
     py_bind (int_of_product width (left_start TAPE_SEARCH_REGIONS)) (\<lambda>left_search_start.
     py_bind (int_of_product width (left_end TAPE_SEARCH_REGIONS)) (\<lambda>left_search_end.
     py_bind (int_of_product width (right_start TAPE_SEARCH_REGIONS)) (\<lambda>right_search_start.
     py_bind (int_of_product width (right_end TAPE_SEARCH_REGIONS)) (\<lambda>right_search_end.
       Inr (left_search_start, left_search_end, right_search_start, right_search_end)))))"

definition tape_threshold :: "int \<Rightarrow> py_error + int" where
  "tape_threshold max_height = int_of_product max_height (height_threshold TAPE_SEARCH_REGIONS)"

definition find_peaks :: "int list \<Rightarrow> int \<Rightarrow> int \<times> int \<times> int \<times> int \<Rightarrow> py_error + (int \<times> int)" where
  "find_peaks counts thr zones =
     (case zones of (left_search_start, left_search_end, right_search_start, right_search_end) \<Rightarrow>
        py_bind (py_max_key (peak_key counts thr) (py_range left_search_start left_search_end))
          (\<lambda>left_peak.
        py_bind (py_max_key (peak_key counts thr) (py_range right_search_start right_search_end))
          (\<lambda>right_peak. Inr (left_peak, right_peak))))"

definition tape_peaks :: "int list \<Rightarrow> int \<Rightarrow> int \<Rightarrow> py_error + (int \<times> int)" where
  "tape_peaks counts width max_height =
     py_bind (tape_zones width) (\<lambda>zones.
     py_bind (tape_threshold max_height) (\<lambda>thr.
       find_peaks counts thr zones))"

definition analyze_white_tape ::
  "int list \<Rightarrow> int \<Rightarrow> int \<Rightarrow> py_error + ((int \<times> int) \<times> (int \<times> int))" where
  "analyze_white_tape counts width max_height =
     py_bind (tape_zones width) (\<lambda>zones.
     py_bind (tape_threshold max_height) (\<lambda>thr.
     py_bind (find_peaks counts thr zones) (\<lambda>(left_peak, right_peak).
     py_bind (find_tape_edges counts width thr left_peak) (\<lambda>left_tape_edges.
     py_bind (find_tape_edges counts width thr right_peak) (\<lambda>right_tape_edges.
       Inr (left_tape_edges, right_tape_edges))))))"

text \<open>\<open>above counts thr i\<close>: column \<open>i\<close> exceeds the height threshold.\<close>

definition above :: "int list \<Rightarrow> int \<Rightarrow> int \<Rightarrow> bool" where
  "above counts thr i = (thr < counts ! nat i)"

subsection \<open>The search zones\<close>

lemma left_start_val: "left_start TAPE_SEARCH_REGIONS = 1 / 4" by code_simp
lemma left_end_lower: "7 / 16 \<le> left_end TAPE_SEARCH_REGIONS" by code_simp
lemma left_end_right_start: "left_end TAPE_SEARCH_REGIONS \<le> right_start TAPE_SEARCH_REGIONS" by code_simp
lemma right_start_upper: "right_start TAPE_SEARCH_REGIONS \<le> 9 / 16" by code_simp
lemma right_end_val: "right_end TAPE_SEARCH_REGIONS = 3 / 4" by code_simp

lemma zones_ordered_5:
  assumes "5 \<le> w" "w < 2 ^ 49"
  defines "ls \<equiv> py_int (int_times_float w (left_start TAPE_SEARCH_REGIONS))"
    and "le \<equiv> py_int (int_times_float w (left_end TAPE_SEARCH_REGIONS))"
    and "rs \<equiv> py_int (int_times_float w (right_start TAPE_SEARCH_REGIONS))"
    and "re \<equiv> py_int (int_times_float w (right_end TAPE_SEARCH_REGIONS))"
  shows "1 \<le> ls \<and> ls < le \<and> le \<le> rs \<and> rs < re \<and> re < w"
proof -
  have w53: "\<bar>w\<bar> < 2 ^ 53" using assms(1,2) by simp
  have wpos: "(0::rat) \<le> of_int w" using assms(1) by simp
  have ls: "ls = w div 4"
  proof -
    have "of_int w * (1 / 4 :: rat) = of_int w * 2 powi (- 2)" by (simp add: quarter)
    moreover have "fl (of_int w * 2 powi (- 2)) = of_int w * 2 powi (- 2)"
      using assms(1,2) by (intro fl_exact) simp_all
    ultimately have "fl (of_int w * (1 / 4)) = (of_int w :: rat) / 4"
      by (simp add: quarter)
    then have itf: "int_times_float w (1 / 4) = of_int w / 4"
      using w53 by (simp only: int_times_float_eq)
    have "(0::rat) \<le> of_int w / 4" using wpos by simp
    then have "py_int (of_int w / 4) = \<lfloor>(of_int w :: rat) / 4\<rfloor>"
      by (simp only: py_int_def if_True)
    then have "ls = \<lfloor>(of_int w :: rat) / 4\<rfloor>"
      by (simp only: ls_def left_start_val itf)
    also have "\<dots> = w div 4" using floor_divide_of_int_eq [of w 4, where ?'a = rat] by simp
    finally show ?thesis .
  qed
  have c1: "1 \<le> ls" using ls assms(1) by presburger
  have le_lower: "w div 4 + 1 \<le> le"
  proof -
    have "16 * (w div 4 + 1) \<le> 7 * w" using assms(1) by presburger
    then have "(of_int (16 * (w div 4 + 1)) :: rat) \<le> of_int (7 * w)"
      by (simp only: of_int_le_iff)
    then have "(of_int (w div 4 + 1) :: rat) \<le> of_int w * (7 / 16)" by simp
    also have "\<dots> \<le> of_int w * left_end TAPE_SEARCH_REGIONS"
      using left_end_lower wpos by (rule mult_left_mono)
    finally have "w div 4 + 1 \<le> py_int (fl (of_int w * left_end TAPE_SEARCH_REGIONS))"
      using assms(1,2) by (intro py_int_fl_ge) simp_all
    then show ?thesis using w53 by (simp add: le_def int_times_float_eq)
  qed
  have c2: "ls < le" using ls le_lower by simp
  have c3: "le \<le> rs"
  proof -
    have "of_int w * left_end TAPE_SEARCH_REGIONS \<le> of_int w * right_start TAPE_SEARCH_REGIONS"
      using left_end_right_start wpos by (rule mult_left_mono)
    then have "fl (of_int w * left_end TAPE_SEARCH_REGIONS)
        \<le> fl (of_int w * right_start TAPE_SEARCH_REGIONS)" by (rule fl_mono)
    then show ?thesis using w53 by (simp add: le_def rs_def int_times_float_eq py_int_mono)
  qed
  define N where "N = (3 * w) div 4"
  have Npos: "0 < N" "N < 2 ^ 49" using assms(1,2) unfolding N_def by simp_all
  have c4a: "rs < N"
  proof -
    have "9 * w + 1 \<le> 16 * N" using assms(1) unfolding N_def by presburger
    then have "(of_int (9 * w + 1) :: rat) \<le> of_int (16 * N)" by (simp only: of_int_le_iff)
    then have "of_int w * (9 / 16 :: rat) \<le> of_int N - 1 / 16" by simp
    moreover have "of_int w * right_start TAPE_SEARCH_REGIONS \<le> of_int w * (9 / 16)"
      using right_start_upper wpos by (rule mult_left_mono)
    ultimately have "of_int w * right_start TAPE_SEARCH_REGIONS \<le> of_int N - 1 / 16" by linarith
    then have "py_int (fl (of_int w * right_start TAPE_SEARCH_REGIONS)) < N"
      using Npos by (rule py_int_fl_lt)
    then show ?thesis using w53 by (simp add: rs_def int_times_float_eq)
  qed
  have c4b: "N \<le> re"
  proof -
    have "4 * N \<le> 3 * w" unfolding N_def by presburger
    then have "(of_int (4 * N) :: rat) \<le> of_int (3 * w)" by (simp only: of_int_le_iff)
    then have "(of_int N :: rat) \<le> of_int w * (3 / 4)" by simp
    then have "N \<le> py_int (fl (of_int w * (3 / 4)))"
      using Npos by (intro py_int_fl_ge) simp_all
    then show ?thesis using w53 by (simp add: re_def right_end_val int_times_float_eq)
  qed
  have c5: "re < w"
  proof -
    have "of_int w * (3 / 4 :: rat) \<le> of_int w - 1 / 16" using assms(1) by simp
    then have "py_int (fl (of_int w * (3 / 4))) < w" using assms(1,2) by (intro py_int_fl_lt) simp_all
    then show ?thesis using w53 by (simp add: re_def right_end_val int_times_float_eq)
  qed
  show ?thesis using c1 c2 c3 c4a c4b c5 by simp
qed

lemma zones_3:
  "py_int (int_times_float 3 (left_start TAPE_SEARCH_REGIONS)) = 0"
  "py_int (int_times_float 3 (left_end TAPE_SEARCH_REGIONS)) = 1"
  "py_int (int_times_float 3 (right_start TAPE_SEARCH_REGIONS)) = 1"
  "py_int (int_times_float 3 (right_end TAPE_SEARCH_REGIONS)) = 2"
  by code_simp+

lemma zones_ordered:
  assumes "w = 3 \<or> 5 \<le> w" "w < 2 ^ 49"
  shows "0 \<le> py_int (int_times_float w (left_start TAPE_SEARCH_REGIONS))
       \<and> py_int (int_times_float w (left_start TAPE_SEARCH_REGIONS))
           < py_int (int_times_float w (left_end TAPE_SEARCH_REGIONS))
       \<and> py_int (int_times_float w (left_end TAPE_SEARCH_REGIONS))
           \<le> py_int (int_times_float w (right_start TAPE_SEARCH_REGIONS))
       \<and> py_int (int_times_float w (right_start TAPE_SEARCH_REGIONS))
           < py_int (int_times_float w (right_end TAPE_SEARCH_REGIONS))
       \<and> py_int (int_times_float w (right_end TAPE_SEARCH_REGIONS)) < w"
proof (cases "w = 3")
  case True
  show ?thesis unfolding True zones_3 by simp
next
  case False
  then have w: "5 \<le> w" using assms(1) by simp
  show ?thesis using zones_ordered_5 [OF w assms(2)] by simp
qed

lemma regions_small:
  "\<bar>left_start TAPE_SEARCH_REGIONS\<bar> \<le> 1"
  "\<bar>left_end TAPE_SEARCH_REGIONS\<bar> \<le> 1"
  "\<bar>right_start TAPE_SEARCH_REGIONS\<bar> \<le> 1"
  "\<bar>right_end TAPE_SEARCH_REGIONS\<bar> \<le> 1"
  "\<bar>height_threshold TAPE_SEARCH_REGIONS\<bar> \<le> 1"
  by code_simp+

lemma tape_zones_ok:
  assumes "\<bar>w\<bar> \<le> 2 ^ 1023"
  shows "tape_zones w =
    Inr (py_int (int_times_float w (left_start TAPE_SEARCH_REGIONS)),
         py_int (int_times_float w (left_end TAPE_SEARCH_REGIONS)),
         py_int (int_times_float w (right_start TAPE_SEARCH_REGIONS)),
         py_int (int_times_float w (right_end TAPE_SEARCH_REGIONS)))"
  by (simp add: tape_zones_def int_of_product_ok [OF assms] regions_small)

lemma tape_threshold_ok:
  assumes "\<bar>max_height\<bar> \<le> 2 ^ 1023"
  shows "\<exists>thr. tape_threshold max_height = Inr thr"
  by (simp add: tape_threshold_def int_of_product_ok [OF assms] regions_small)

lemma tape_zones_1: "tape_zones 1 = Inr (0, 0, 0, 0)" by code_simp
lemma tape_zones_2: "tape_zones 2 = Inr (0, 0, 1, 1)" by code_simp
lemma tape_zones_4: "tape_zones 4 = Inr (1, 1, 2, 3)" by code_simp

subsection \<open>The two scans of \<open>find_tape_edges\<close>\<close>

lemma go_left_step:
  assumes "0 < p" "p < int (length counts)" "above counts thr p"
  shows "go_left counts thr p = go_left counts thr (p - 1)"
  using assms by (subst go_left.simps) (simp add: py_get_in_range above_def)

lemma go_left_halt:
  assumes "0 \<le> p" "p < int (length counts)" "\<not> above counts thr p \<or> p = 0"
  shows "go_left counts thr p = Inr p"
  using assms by (subst go_left.simps) (auto simp add: py_get_in_range above_def)

lemma go_right_step:
  assumes "0 \<le> p" "p < width - 1" "width \<le> int (length counts)" "above counts thr p"
  shows "go_right counts width thr p = go_right counts width thr (p + 1)"
  using assms by (subst go_right.simps) (simp add: py_get_in_range above_def)

lemma go_right_halt:
  assumes "0 \<le> p" "p < int (length counts)" "\<not> above counts thr p \<or> width - 1 \<le> p"
  shows "go_right counts width thr p = Inr p"
  using assms by (subst go_right.simps) (auto simp add: py_get_in_range above_def)

lemma go_left_bounds:
  assumes "0 \<le> p" "p < int (length counts)"
  shows "\<exists>l. go_left counts thr p = Inr l \<and> 0 \<le> l \<and> l \<le> p"
  using assms
proof (induction "nat p" arbitrary: p)
  case 0
  then have "p = 0" by simp
  then show ?case using "0.prems" by (simp add: go_left_halt)
next
  case (Suc n)
  show ?case
  proof (cases "above counts thr p")
    case True
    have p: "0 < p" using Suc.hyps(2) by simp
    have "n = nat (p - 1)" using Suc.hyps(2) by simp
    moreover have "0 \<le> p - 1" "p - 1 < int (length counts)" using p Suc.prems by simp_all
    ultimately obtain l where "go_left counts thr (p - 1) = Inr l" "0 \<le> l" "l \<le> p - 1"
      using Suc.hyps(1) by blast
    then show ?thesis using go_left_step [OF p Suc.prems(2) True] by auto
  next
    case False
    then show ?thesis using Suc.prems by (simp add: go_left_halt)
  qed
qed

lemma go_left_strict:
  assumes "0 < p" "p < int (length counts)" "above counts thr p"
  shows "\<exists>l. go_left counts thr p = Inr l \<and> 0 \<le> l \<and> l < p"
proof -
  have "0 \<le> p - 1" "p - 1 < int (length counts)" using assms by simp_all
  then obtain l where "go_left counts thr (p - 1) = Inr l" "0 \<le> l" "l \<le> p - 1"
    using go_left_bounds by blast
  then show ?thesis using go_left_step [OF assms] by auto
qed

lemma go_right_bounds:
  assumes "0 \<le> p" "p < width" "width \<le> int (length counts)"
  shows "\<exists>r. go_right counts width thr p = Inr r \<and> p \<le> r \<and> r < width"
  using assms
proof (induction "nat (width - 1 - p)" arbitrary: p)
  case 0
  then have "width - 1 \<le> p" by simp
  then show ?case using "0.prems" by (simp add: go_right_halt)
next
  case (Suc n)
  show ?case
  proof (cases "above counts thr p")
    case True
    have p: "p < width - 1" using Suc.hyps(2) by simp
    have "n = nat (width - 1 - (p + 1))" using Suc.hyps(2) by simp
    moreover have "0 \<le> p + 1" "p + 1 < width" using p Suc.prems by simp_all
    ultimately obtain r where "go_right counts width thr (p + 1) = Inr r" "p + 1 \<le> r" "r < width"
      using Suc.hyps(1) Suc.prems(3) by blast
    then show ?thesis using go_right_step [OF Suc.prems(1) p Suc.prems(3) True] by auto
  next
    case False
    then show ?thesis using Suc.prems by (simp add: go_right_halt)
  qed
qed

lemma go_right_strict:
  assumes "0 \<le> p" "p < width - 1" "width \<le> int (length counts)" "above counts thr p"
  shows "\<exists>r. go_right counts width thr p = Inr r \<and> p < r \<and> r < width"
proof -
  have "0 \<le> p + 1" "p + 1 < width" using assms by simp_all
  then obtain r where "go_right counts width thr (p + 1) = Inr r" "p + 1 \<le> r" "r < width"
    using go_right_bounds assms(3) by blast
  then show ?thesis using go_right_step [OF assms] by auto
qed

lemma go_left_run:
  assumes "0 \<le> a" "a \<le> b" "b < int (length counts)"
    and "\<forall>i. a < i \<and> i \<le> b \<longrightarrow> above counts thr i"
  shows "go_left counts thr b = go_left counts thr a"
  using assms
proof (induction "nat (b - a)" arbitrary: b)
  case 0
  then show ?case by simp
next
  case (Suc n)
  have b: "a < b" using Suc.hyps(2) by simp
  then have "above counts thr b" using Suc.prems(4) by simp
  moreover have "0 < b" using b Suc.prems(1) by simp
  ultimately have "go_left counts thr b = go_left counts thr (b - 1)"
    using Suc.prems(3) by (intro go_left_step)
  moreover have "go_left counts thr (b - 1) = go_left counts thr a"
  proof (rule Suc.hyps(1))
    show "n = nat (b - 1 - a)" using Suc.hyps(2) by simp
    show "0 \<le> a" by fact
    show "a \<le> b - 1" using b by simp
    show "b - 1 < int (length counts)" using Suc.prems(3) by simp
    show "\<forall>i. a < i \<and> i \<le> b - 1 \<longrightarrow> above counts thr i" using Suc.prems(4) by simp
  qed
  ultimately show ?case by simp
qed

lemma go_right_run:
  assumes "0 \<le> a" "a \<le> b" "b \<le> width - 1" "width \<le> int (length counts)"
    and "\<forall>i. a \<le> i \<and> i < b \<longrightarrow> above counts thr i"
  shows "go_right counts width thr a = go_right counts width thr b"
  using assms
proof (induction "nat (b - a)" arbitrary: a)
  case 0
  then show ?case by simp
next
  case (Suc n)
  have a: "a < b" using Suc.hyps(2) by simp
  then have "above counts thr a" using Suc.prems(5) by simp
  moreover have "a < width - 1" using a Suc.prems(3) by simp
  ultimately have "go_right counts width thr a = go_right counts width thr (a + 1)"
    using Suc.prems(1,4) by (intro go_right_step)
  moreover have "go_right counts width thr (a + 1) = go_right counts width thr b"
  proof (rule Suc.hyps(1))
    show "n = nat (b - (a + 1))" using Suc.hyps(2) by simp
    show "0 \<le> a + 1" using Suc.prems(1) by simp
    show "a + 1 \<le> b" using a by simp
    show "b \<le> width - 1" by fact
    show "width \<le> int (length counts)" by fact
    show "\<forall>i. a + 1 \<le> i \<and> i < b \<longrightarrow> above counts thr i" using Suc.prems(5) by simp
  qed
  ultimately show ?case by simp
qed

lemma go_left_stop:
  assumes "0 \<le> c" "c \<le> b" "b < int (length counts)" "\<not> above counts thr c"
  shows "\<exists>l. go_left counts thr b = Inr l \<and> c \<le> l"
  using assms
proof (induction "nat (b - c)" arbitrary: b)
  case 0
  then have "b = c" by simp
  then show ?case using "0.prems" by (simp add: go_left_halt)
next
  case (Suc n)
  have b: "c < b" using Suc.hyps(2) by simp
  show ?case
  proof (cases "above counts thr b")
    case True
    have "0 < b" using b Suc.prems(1) by simp
    then have "go_left counts thr b = go_left counts thr (b - 1)"
      using Suc.prems(3) True by (intro go_left_step)
    moreover have "\<exists>l. go_left counts thr (b - 1) = Inr l \<and> c \<le> l"
    proof (rule Suc.hyps(1))
      show "n = nat (b - 1 - c)" using Suc.hyps(2) by simp
      show "0 \<le> c" by fact
      show "c \<le> b - 1" using b by simp
      show "b - 1 < int (length counts)" using Suc.prems(3) by simp
      show "\<not> above counts thr c" by fact
    qed
    ultimately show ?thesis by simp
  next
    case False
    have "0 \<le> b" using b Suc.prems(1) by simp
    then have "go_left counts thr b = Inr b" using Suc.prems(3) False by (intro go_left_halt) simp_all
    then show ?thesis using b by simp
  qed
qed

lemma go_right_stop:
  assumes "0 \<le> a" "a \<le> c" "c < int (length counts)" "\<not> above counts thr c"
  shows "\<exists>r. go_right counts width thr a = Inr r \<and> r \<le> c"
  using assms
proof (induction "nat (c - a)" arbitrary: a)
  case 0
  then have "a = c" by simp
  then show ?case using "0.prems" by (simp add: go_right_halt)
next
  case (Suc n)
  have a: "a < c" using Suc.hyps(2) by simp
  have alen: "a < int (length counts)" using a Suc.prems(3) by simp
  show ?case
  proof (cases "above counts thr a \<and> a < width - 1")
    case True
    have "go_right counts width thr a = go_right counts width thr (a + 1)"
      using True Suc.prems(1) alen by (subst go_right.simps) (simp add: py_get_in_range above_def)
    moreover have "\<exists>r. go_right counts width thr (a + 1) = Inr r \<and> r \<le> c"
    proof (rule Suc.hyps(1))
      show "n = nat (c - (a + 1))" using Suc.hyps(2) by simp
      show "0 \<le> a + 1" using Suc.prems(1) by simp
      show "a + 1 \<le> c" using a by simp
      show "c < int (length counts)" by fact
      show "\<not> above counts thr c" by fact
    qed
    ultimately show ?thesis by simp
  next
    case False
    then have "go_right counts width thr a = Inr a"
      using Suc.prems(1) alen by (intro go_right_halt) auto
    then show ?thesis using a by simp
  qed
qed

subsection \<open>The seeds and the regions\<close>

lemma key_all_ok:
  assumes "\<forall>x \<in> set xs. 0 \<le> x \<and> x < int (length counts)"
  shows "\<exists>ks. key_all (peak_key counts thr) xs = Inr ks \<and> map fst ks = xs"
  using assms
proof (induction xs)
  case Nil
  then show ?case by simp
next
  case (Cons x xs)
  then obtain ks where ks: "key_all (peak_key counts thr) xs = Inr ks" "map fst ks = xs" by auto
  have "0 \<le> x" "x < int (length counts)" using Cons.prems by simp_all
  then have "\<exists>k. peak_key counts thr x = Inr k"
    by (simp add: peak_key_def py_get_in_range)
  then obtain k where "peak_key counts thr x = Inr k" by blast
  then show ?case using ks by simp
qed

lemma best_mem: "fst (best b ps) \<in> insert (fst b) (set (map fst ps))"
proof (induction ps arbitrary: b)
  case Nil
  then show ?case by simp
next
  case (Cons p ps)
  have "fst (best (if snd b < snd p then p else b) ps)
      \<in> insert (fst (if snd b < snd p then p else b)) (set (map fst ps))"
    by (rule Cons.IH)
  then show ?case by (auto split: if_splits)
qed

lemma py_max_key_ok:
  assumes "xs \<noteq> []" "\<forall>x \<in> set xs. 0 \<le> x \<and> x < int (length counts)"
  shows "\<exists>p. py_max_key (peak_key counts thr) xs = Inr p \<and> p \<in> set xs"
proof -
  obtain ks where ks: "key_all (peak_key counts thr) xs = Inr ks" "map fst ks = xs"
    using key_all_ok [OF assms(2)] by blast
  with assms(1) obtain k ks' where k: "ks = k # ks'" by (cases ks) auto
  have "py_max_key (peak_key counts thr) xs = Inr (fst (best k ks'))"
    using assms(1) ks(1) k by (cases xs) (simp_all add: py_max_key_def)
  moreover have "fst (best k ks') \<in> set xs"
  proof -
    have "xs = fst k # map fst ks'" using ks(2) k by simp
    then have "set xs = insert (fst k) (set (map fst ks'))" by (simp only: list.set)
    then show ?thesis using best_mem [of k ks'] by (simp only:)
  qed
  ultimately show ?thesis by blast
qed

lemma py_max_key_empty: "py_max_key f [] = Inl ValueError"
  by (simp add: py_max_key_def)

lemma py_range_empty: "b \<le> a \<Longrightarrow> py_range a b = []"
  by (simp add: py_range_def)

lemma find_peaks_empty_left:
  assumes "left_search_end \<le> left_search_start"
  shows "find_peaks counts thr (left_search_start, left_search_end, right_search_start, right_search_end)
           = Inl ValueError"
  using assms by (simp add: find_peaks_def py_range_empty py_max_key_empty)

lemma find_peaks_ok:
  assumes "0 \<le> ls" "ls < le" "le \<le> rs" "rs < re" "re < width"
    and "int (length counts) = width"
  shows "\<exists>p1 p2. find_peaks counts thr (ls, le, rs, re) = Inr (p1, p2)
           \<and> 0 \<le> p1 \<and> p1 < p2 \<and> p2 < width - 1"
proof -
  have "py_range ls le \<noteq> []" using assms by (simp add: py_range_nonempty)
  moreover have "\<forall>x \<in> set (py_range ls le). 0 \<le> x \<and> x < int (length counts)"
    using assms by (auto simp add: set_py_range)
  ultimately obtain p1 where p1: "py_max_key (peak_key counts thr) (py_range ls le) = Inr p1"
      "p1 \<in> set (py_range ls le)"
    using py_max_key_ok by blast
  have "py_range rs re \<noteq> []" using assms by (simp add: py_range_nonempty)
  moreover have "\<forall>x \<in> set (py_range rs re). 0 \<le> x \<and> x < int (length counts)"
    using assms by (auto simp add: set_py_range)
  ultimately obtain p2 where p2: "py_max_key (peak_key counts thr) (py_range rs re) = Inr p2"
      "p2 \<in> set (py_range rs re)"
    using py_max_key_ok by blast
  have "find_peaks counts thr (ls, le, rs, re) = Inr (p1, p2)"
    using p1(1) p2(1) by (simp add: find_peaks_def)
  moreover have "0 \<le> p1" "p1 < p2" "p2 < width - 1"
    using assms p1(2) p2(2) by (auto simp add: set_py_range)
  ultimately show ?thesis by blast
qed

lemma find_tape_edges_ok:
  assumes "0 \<le> p" "p < width - 1" "int (length counts) = width"
  shows "\<exists>l r. find_tape_edges counts width thr p = Inr (l, r)
           \<and> 0 \<le> l \<and> l \<le> p \<and> p \<le> r \<and> r < width \<and> (l < r) = (thr < counts ! nat p)"
proof (cases "above counts thr p")
  case True
  have plen: "p < int (length counts)" using assms by simp
  obtain l where l: "go_left counts thr p = Inr l" "0 \<le> l" "l \<le> p"
    using go_left_bounds [OF assms(1) plen] by blast
  have "width \<le> int (length counts)" using assms by simp
  then obtain r where r: "go_right counts width thr p = Inr r" "p < r" "r < width"
    using go_right_strict [OF assms(1,2) _ True] by blast
  show ?thesis using l r True by (simp add: find_tape_edges_def above_def)
next
  case False
  have "p < int (length counts)" using assms by simp
  then have "go_left counts thr p = Inr p" "go_right counts width thr p = Inr p"
    using False assms(1) by (simp_all add: go_left_halt go_right_halt)
  then show ?thesis using False assms by (simp add: find_tape_edges_def above_def)
qed

text \<open>
  On a profile of length width, for width 3 or at least 5, the zones are non-empty and the
  function reduces to the two calls of \<^verbatim>\<open>find_tape_edges\<close> at the two seeds.
\<close>

lemma analyze_white_tape_seeds:
  assumes "width = 3 \<or> 5 \<le> width" "width < 2 ^ 49" "int (length counts) = width"
    and "0 \<le> max_height" "max_height < 2 ^ 1023"
  shows "\<exists>thr p1 p2. tape_threshold max_height = Inr thr
           \<and> tape_peaks counts width max_height = Inr (p1, p2)
           \<and> 0 \<le> p1 \<and> p1 < p2 \<and> p2 < width - 1
           \<and> analyze_white_tape counts width max_height =
               py_bind (find_tape_edges counts width thr p1) (\<lambda>left_tape_edges.
               py_bind (find_tape_edges counts width thr p2) (\<lambda>right_tape_edges.
                 Inr (left_tape_edges, right_tape_edges)))"
proof -
  define ls where "ls = py_int (int_times_float width (left_start TAPE_SEARCH_REGIONS))"
  define le where "le = py_int (int_times_float width (left_end TAPE_SEARCH_REGIONS))"
  define rs where "rs = py_int (int_times_float width (right_start TAPE_SEARCH_REGIONS))"
  define re where "re = py_int (int_times_float width (right_end TAPE_SEARCH_REGIONS))"
  have "(2 :: int) ^ 49 \<le> 2 ^ 1023" by simp
  then have "\<bar>width\<bar> \<le> 2 ^ 1023" using assms(1,2) by linarith
  then have zones: "tape_zones width = Inr (ls, le, rs, re)"
    unfolding ls_def le_def rs_def re_def by (rule tape_zones_ok)
  have "\<bar>max_height\<bar> \<le> 2 ^ 1023" using assms(4,5) by simp
  then obtain thr where thr: "tape_threshold max_height = Inr thr"
    using tape_threshold_ok by blast
  have z: "0 \<le> ls \<and> ls < le \<and> le \<le> rs \<and> rs < re \<and> re < width"
    unfolding ls_def le_def rs_def re_def using assms(1,2) by (rule zones_ordered)
  obtain p1 p2 where p: "find_peaks counts thr (ls, le, rs, re) = Inr (p1, p2)"
      "0 \<le> p1" "p1 < p2" "p2 < width - 1"
    using find_peaks_ok [of ls le rs re width counts thr] z assms(3) by blast
  have "tape_peaks counts width max_height = Inr (p1, p2)"
    by (simp add: tape_peaks_def zones thr p(1))
  moreover have "analyze_white_tape counts width max_height =
      py_bind (find_tape_edges counts width thr p1) (\<lambda>left_tape_edges.
      py_bind (find_tape_edges counts width thr p2) (\<lambda>right_tape_edges.
        Inr (left_tape_edges, right_tape_edges)))"
    by (simp add: analyze_white_tape_def zones thr p(1))
  ultimately show ?thesis using thr p(2,3,4) by blast
qed

lemma analyze_white_tape_empty_zone:
  assumes "width = 1 \<or> width = 2 \<or> width = 4" "0 \<le> max_height" "max_height < 2 ^ 1023"
  shows "analyze_white_tape counts width max_height = Inl ValueError"
proof -
  have "\<bar>max_height\<bar> \<le> 2 ^ 1023" using assms(2,3) by simp
  then obtain thr where thr: "tape_threshold max_height = Inr thr"
    using tape_threshold_ok by blast
  obtain ls le rs re where zones: "tape_zones width = Inr (ls, le, rs, re)" "le \<le> ls"
    using assms(1) tape_zones_1 tape_zones_2 tape_zones_4 by fastforce
  show ?thesis
    by (simp add: analyze_white_tape_def zones(1) thr find_peaks_empty_left [OF zones(2)])
qed

text \<open>
  C7 (as amended). The claim reads "for every width \<open>\<ge> 1\<close>, every max_height \<open>\<ge> 0\<close> and every
  profile of length width, \<^verbatim>\<open>analyze_white_tape\<close> returns a pair of regions without raising".
  For the widths 1, 2 and 4 the left search zone is empty and \<^verbatim>\<open>max\<close> raises \<open>ValueError\<close>,
  whatever the profile. What holds, for every max_height in \<open>[0, 2\<^sup>1\<^sup>0\<^sup>2\<^sup>3)\<close> (where its
  conversion to a float cannot overflow) and every profile of length width: at the widths
  1, 2 and 4 the function raises \<open>ValueError\<close>; at width 3 and at every width from 5 on
  (below \<open>2\<^sup>4\<^sup>9\<close>, where the float products are exact enough) it returns a pair of regions.
\<close>

theorem analyze_white_tape_returns:
  assumes "int (length counts) = width" "0 \<le> max_height" "max_height < 2 ^ 1023"
  shows "(width = 1 \<or> width = 2 \<or> width = 4 \<longrightarrow>
            analyze_white_tape counts width max_height = Inl ValueError)
       \<and> ((width = 3 \<or> 5 \<le> width) \<and> width < 2 ^ 49 \<longrightarrow>
            (\<exists>left_tape right_tape.
               analyze_white_tape counts width max_height = Inr (left_tape, right_tape)))"
proof (intro conjI impI)
  assume "width = 1 \<or> width = 2 \<or> width = 4"
  then show "analyze_white_tape counts width max_height = Inl ValueError"
    using assms(2,3) by (rule analyze_white_tape_empty_zone)
next
  assume w: "(width = 3 \<or> 5 \<le> width) \<and> width < 2 ^ 49"
  then have w1: "width = 3 \<or> 5 \<le> width" and w2: "width < 2 ^ 49" by simp_all
  obtain thr p1 p2 where p: "0 \<le> p1" "p1 < p2" "p2 < width - 1"
      "analyze_white_tape counts width max_height =
         py_bind (find_tape_edges counts width thr p1) (\<lambda>left_tape_edges.
         py_bind (find_tape_edges counts width thr p2) (\<lambda>right_tape_edges.
           Inr (left_tape_edges, right_tape_edges)))"
    using analyze_white_tape_seeds [OF w1 w2 assms] by blast
  have b: "p1 < width - 1" "0 \<le> p2" using p by simp_all
  obtain e1 where e1: "find_tape_edges counts width thr p1 = Inr e1"
    using find_tape_edges_ok [OF p(1) b(1) assms(1)] by blast
  obtain e2 where e2: "find_tape_edges counts width thr p2 = Inr e2"
    using find_tape_edges_ok [OF b(2) p(3) assms(1)] by blast
  show "\<exists>left_tape right_tape.
      analyze_white_tape counts width max_height = Inr (left_tape, right_tape)"
    by (simp add: p(4) e1 e2)
qed

theorem analyze_white_tape_returns_witness:
  "analyze_white_tape [7, 7] 2 7 = Inl ValueError
   \<and> (\<exists>left_tape right_tape.
        analyze_white_tape [0, 9, 0] 3 9 = Inr (left_tape, right_tape))
   \<and> (\<exists>left_tape right_tape.
        analyze_white_tape [0, 0, 0, 0, 0, 9, 9, 9, 0, 0, 0, 9, 9, 9, 0, 0, 0, 0, 0, 0] 20 9
          = Inr (left_tape, right_tape))"
  using analyze_white_tape_returns [of "[7, 7]" 2 7]
    analyze_white_tape_returns [of "[0, 9, 0]" 3 9]
    analyze_white_tape_returns [of "[0, 0, 0, 0, 0, 9, 9, 9, 0, 0, 0, 9, 9, 9, 0, 0, 0, 0, 0, 0]" 20 9]
  by simp

text \<open>The claim as stated fails at width 1: the left zone \<^verbatim>\<open>range(0, 0)\<close> is empty.\<close>

theorem analyze_white_tape_width_1_raises:
  "analyze_white_tape [0] 1 0 = Inl ValueError"
  by code_simp


text \<open>
  C4 (as amended). The claim reads "every region returned satisfies
  \<open>0 \<le> left_edge < right_edge \<le> width\<close>". A seed whose column does not exceed the threshold
  gives the degenerate region \<open>(seed, seed)\<close>. What holds, for every profile of length
  width (width 3, or \<open>5 \<le> width < 2\<^sup>4\<^sup>9\<close>) and every max_height in \<open>[0, 2\<^sup>1\<^sup>0\<^sup>2\<^sup>3)\<close>: the
  function returns two regions, each region contains its seed and satisfies
  \<open>0 \<le> left_edge \<le> seed \<le> right_edge < width\<close>, and \<open>left_edge < right_edge\<close> holds exactly
  when the profile at the region's seed exceeds the height threshold; so a region that is
  not a proper interval is \<open>(seed, seed)\<close>.
\<close>

theorem analyze_white_tape_region_bounds:
  assumes "width = 3 \<or> 5 \<le> width" "width < 2 ^ 49" "int (length counts) = width"
    and "0 \<le> max_height" "max_height < 2 ^ 1023"
  shows "\<exists>thr p1 p2 l1 r1 l2 r2.
           tape_threshold max_height = Inr thr
         \<and> tape_peaks counts width max_height = Inr (p1, p2)
         \<and> analyze_white_tape counts width max_height = Inr ((l1, r1), (l2, r2))
         \<and> 0 \<le> l1 \<and> l1 \<le> p1 \<and> p1 \<le> r1 \<and> r1 < width
         \<and> 0 \<le> l2 \<and> l2 \<le> p2 \<and> p2 \<le> r2 \<and> r2 < width
         \<and> (l1 < r1) = (thr < counts ! nat p1)
         \<and> (l2 < r2) = (thr < counts ! nat p2)"
proof -
  obtain thr p1 p2 where p: "tape_threshold max_height = Inr thr"
      "tape_peaks counts width max_height = Inr (p1, p2)"
      "0 \<le> p1" "p1 < p2" "p2 < width - 1"
      "analyze_white_tape counts width max_height =
         py_bind (find_tape_edges counts width thr p1) (\<lambda>left_tape_edges.
         py_bind (find_tape_edges counts width thr p2) (\<lambda>right_tape_edges.
           Inr (left_tape_edges, right_tape_edges)))"
    using analyze_white_tape_seeds [OF assms] by blast
  have b: "p1 < width - 1" "0 \<le> p2" using p by simp_all
  obtain l1 r1 where e1: "find_tape_edges counts width thr p1 = Inr (l1, r1)"
      "0 \<le> l1" "l1 \<le> p1" "p1 \<le> r1" "r1 < width" "(l1 < r1) = (thr < counts ! nat p1)"
    using find_tape_edges_ok [OF p(3) b(1) assms(3)] by blast
  obtain l2 r2 where e2: "find_tape_edges counts width thr p2 = Inr (l2, r2)"
      "0 \<le> l2" "l2 \<le> p2" "p2 \<le> r2" "r2 < width" "(l2 < r2) = (thr < counts ! nat p2)"
    using find_tape_edges_ok [OF b(2) p(5) assms(3)] by blast
  have "analyze_white_tape counts width max_height = Inr ((l1, r1), (l2, r2))"
    by (simp add: p(6) e1(1) e2(1))
  then show ?thesis using p(1,2) e1 e2 by blast
qed

theorem analyze_white_tape_region_bounds_witness:
  "\<exists>thr p1 p2 l1 r1 l2 r2.
     tape_threshold 9 = Inr thr
   \<and> tape_peaks [0, 0, 0, 0, 0, 9, 9, 9, 0, 0, 0, 9, 9, 9, 0, 0, 0, 0, 0, 0] 20 9 = Inr (p1, p2)
   \<and> analyze_white_tape [0, 0, 0, 0, 0, 9, 9, 9, 0, 0, 0, 9, 9, 9, 0, 0, 0, 0, 0, 0] 20 9 = Inr ((l1, r1), (l2, r2))
   \<and> 0 \<le> l1 \<and> l1 \<le> p1 \<and> p1 \<le> r1 \<and> r1 < 20
   \<and> 0 \<le> l2 \<and> l2 \<le> p2 \<and> p2 \<le> r2 \<and> r2 < 20
   \<and> (l1 < r1) = (thr < [0, 0, 0, 0, 0, 9, 9, 9, 0, 0, 0, 9, 9, 9, 0, 0, 0, 0, 0, 0] ! nat p1)
   \<and> (l2 < r2) = (thr < [0, 0, 0, 0, 0, 9, 9, 9, 0, 0, 0, 9, 9, 9, 0, 0, 0, 0, 0, 0] ! nat p2)"
  by (rule analyze_white_tape_region_bounds) simp_all

text \<open>
  The claim as stated fails on an all-zero profile of width 20: both regions are
  degenerate, \<open>left_edge = right_edge\<close>.
\<close>

theorem analyze_white_tape_degenerate_regions:
  "analyze_white_tape (replicate 20 0) 20 10 = Inr ((5, 5), (11, 11))"
  by code_simp


text \<open>
  C3 (as amended). The claim reads "the right edge of the left region is at most the
  left edge of the right region". The search zones are disjoint, but the scans of
  \<^verbatim>\<open>find_tape_edges\<close> are not confined to them: when every column between the two seeds
  exceeds the threshold, both scans cover the same run. What holds, for every profile of
  length width (width 3, or \<open>5 \<le> width < 2\<^sup>4\<^sup>9\<close>) and every max_height in
  \<open>[0, 2\<^sup>1\<^sup>0\<^sup>2\<^sup>3)\<close>: the function returns two regions, and either the right edge of the left
  region is at most the left edge of the right region, or the two regions are the same
  region.
\<close>

theorem analyze_white_tape_disjoint_or_equal:
  assumes "width = 3 \<or> 5 \<le> width" "width < 2 ^ 49" "int (length counts) = width"
    and "0 \<le> max_height" "max_height < 2 ^ 1023"
  shows "\<exists>l1 r1 l2 r2.
           analyze_white_tape counts width max_height = Inr ((l1, r1), (l2, r2))
         \<and> (r1 \<le> l2 \<or> (l1, r1) = (l2, r2))"
proof -
  obtain thr p1 p2 where p: "0 \<le> p1" "p1 < p2" "p2 < width - 1"
      "analyze_white_tape counts width max_height =
         py_bind (find_tape_edges counts width thr p1) (\<lambda>left_tape_edges.
         py_bind (find_tape_edges counts width thr p2) (\<lambda>right_tape_edges.
           Inr (left_tape_edges, right_tape_edges)))"
    using analyze_white_tape_seeds [OF assms] by blast
  have b: "p1 < width - 1" "0 \<le> p2" using p by simp_all
  have len: "p1 < int (length counts)" "p2 < int (length counts)" "width \<le> int (length counts)"
    using p assms(3) by simp_all
  obtain l1 where l1: "go_left counts thr p1 = Inr l1"
    using go_left_bounds [of p1 counts thr] p b len by auto
  obtain r1 where r1: "go_right counts width thr p1 = Inr r1"
    using go_right_bounds [of p1 width counts thr] p b len by auto
  obtain l2 where l2: "go_left counts thr p2 = Inr l2"
    using go_left_bounds [of p2 counts thr] p b len by auto
  obtain r2 where r2: "go_right counts width thr p2 = Inr r2"
    using go_right_bounds [of p2 width counts thr] p b len by auto
  have res: "analyze_white_tape counts width max_height = Inr ((l1, r1), (l2, r2))"
    using l1 r1 l2 r2 by (simp add: p(4) find_tape_edges_def)
  show ?thesis
  proof (cases "\<exists>c. p1 \<le> c \<and> c \<le> p2 \<and> \<not> above counts thr c")
    case True
    then obtain c where c: "p1 \<le> c" "c \<le> p2" "\<not> above counts thr c" by blast
    have "\<exists>r. go_right counts width thr p1 = Inr r \<and> r \<le> c"
      using p b c len by (intro go_right_stop) simp_all
    then have "r1 \<le> c" using r1 by simp
    moreover have "\<exists>l. go_left counts thr p2 = Inr l \<and> c \<le> l"
      using p b c len by (intro go_left_stop) simp_all
    then have "c \<le> l2" using l2 by simp
    ultimately show ?thesis using res by simp
  next
    case False
    then have all: "\<forall>i. p1 \<le> i \<and> i \<le> p2 \<longrightarrow> above counts thr i" by blast
    have "go_left counts thr p2 = go_left counts thr p1"
      using b p len all by (intro go_left_run) simp_all
    moreover have "go_right counts width thr p1 = go_right counts width thr p2"
      using b p len all by (intro go_right_run) simp_all
    ultimately have "l1 = l2" "r1 = r2" using l1 l2 r1 r2 by simp_all
    then show ?thesis using res by simp
  qed
qed

theorem analyze_white_tape_disjoint_or_equal_witness:
  "\<exists>l1 r1 l2 r2.
     analyze_white_tape [0, 0, 0, 0, 0, 9, 9, 9, 0, 0, 0, 9, 9, 9, 0, 0, 0, 0, 0, 0] 20 9 = Inr ((l1, r1), (l2, r2))
   \<and> (r1 \<le> l2 \<or> (l1, r1) = (l2, r2))"
  by (rule analyze_white_tape_disjoint_or_equal) simp_all

text \<open>
  The claim as stated fails on a profile of width 20 that is above the threshold
  everywhere: both regions are \<open>(0, 19)\<close>, and \<open>19 > 0\<close>.
\<close>

theorem analyze_white_tape_regions_overlap:
  "analyze_white_tape (replicate 20 10) 20 10 = Inr ((0, 19), (0, 19))"
  by code_simp

section \<open>image_scaler.py: the resolution normalizer\<close>

text \<open>
  \<open>ImageScaler\<close> is the class: \<^verbatim>\<open>__init__\<close> stores the scale factor and sets
  \<^verbatim>\<open>min_width = 1000\<close>. \<open>scale_divisor_loop\<close> is the while loop of
  \<^verbatim>\<open>calculate_scale_factor\<close>; it compares the float \<^verbatim>\<open>original_width / (scale_divisor + 1)\<close>
  with the int \<^verbatim>\<open>min_width\<close>, and does not terminate for a \<^verbatim>\<open>min_width\<close> below 1, so the
  result is an option (\<open>None\<close>: no result) of a value or an exception.
  \<open>float_div_int x n\<close> is \<^verbatim>\<open>x / n\<close> for a float \<open>x\<close> and an int \<open>n\<close>. \<open>img_resize\<close> is the size
  check of \<^verbatim>\<open>img.resize\<close>, which raises \<open>ValueError\<close> unless both sides are at least 1 (the
  pixels are not modelled). \<open>scale_image_size\<close> is \<^verbatim>\<open>scale_image\<close> on an image of the given
  size: the size of the image it saves, or the exception it raises before saving.
\<close>

record ImageScaler =
  scale_factor :: rat
  min_width :: int

definition ImageScaler_init :: "rat \<Rightarrow> ImageScaler" where
  "ImageScaler_init sf = \<lparr> scale_factor = sf, min_width = 1000 \<rparr>"

partial_function (option) scale_divisor_loop :: "int \<Rightarrow> int \<Rightarrow> int \<Rightarrow> (py_error + int) option" where
  "scale_divisor_loop mw original_width scale_divisor =
     (case py_true_div original_width (scale_divisor + 1) of
        Inl e \<Rightarrow> Some (Inl e)
      | Inr q \<Rightarrow>
          if of_int mw \<le> q
          then scale_divisor_loop mw original_width (scale_divisor + 1)
          else Some (Inr scale_divisor))"

definition float_div_int :: "rat \<Rightarrow> int \<Rightarrow> py_error + rat" where
  "float_div_int x n =
     py_bind (py_float n) (\<lambda>y. if y = 0 then Inl ZeroDivisionError else Inr (fl (x / y)))"

definition calculate_scale_factor :: "ImageScaler \<Rightarrow> int \<Rightarrow> (py_error + rat) option" where
  "calculate_scale_factor self original_width =
     map_option (\<lambda>r. py_bind r (\<lambda>scale_divisor. float_div_int 1 scale_divisor))
       (scale_divisor_loop (min_width self) original_width 1)"

definition img_resize :: "int \<times> int \<Rightarrow> py_error + (int \<times> int)" where
  "img_resize new_size =
     (if fst new_size < 1 \<or> snd new_size < 1 then Inl ValueError else Inr new_size)"

definition scale_image_size :: "ImageScaler \<Rightarrow> int \<times> int \<Rightarrow> (py_error + (int \<times> int)) option" where
  "scale_image_size self img_size =
     (case img_size of (width, height) \<Rightarrow>
        map_option (\<lambda>r.
            py_bind r (\<lambda>actual_scale.
            py_bind (int_of_product width actual_scale) (\<lambda>new_width.
            py_bind (int_of_product height actual_scale) (\<lambda>new_height.
              img_resize (new_width, new_height)))))
          (calculate_scale_factor self width))"

subsection \<open>The loop computes the largest divisor\<close>

lemma pow43: "(2::rat) powi (- 43) = 1 / 2 ^ 43"
  by (simp add: power_int_minus_divide)

lemma width_test_exact:
  assumes "0 \<le> w" "1 \<le> k" "k \<le> 2 ^ 43"
  shows "(1000 \<le> fl (of_int w / of_int k)) = (1000 * k \<le> w)"
proof
  assume "1000 * k \<le> w"
  then have "(of_int (1000 * k) :: rat) \<le> of_int w" by (simp only: of_int_le_iff)
  then have "(1000 :: rat) \<le> of_int w / of_int k"
    using assms(2) by (simp add: pos_le_divide_eq)
  then have "fl (of_int 1000) \<le> fl (of_int w / of_int k)" using fl_mono by simp
  moreover have "fl (of_int 1000) = of_int 1000" by (rule fl_of_int) simp
  ultimately show "1000 \<le> fl (of_int w / of_int k)" by simp
next
  assume a: "1000 \<le> fl (of_int w / of_int k)"
  show "1000 * k \<le> w"
  proof (rule ccontr)
    assume "\<not> 1000 * k \<le> w"
    then have "w + 1 \<le> 1000 * k" by simp
    then have "(of_int (w + 1) :: rat) \<le> of_int (1000 * k)" by (simp only: of_int_le_iff)
    then have "(of_int w :: rat) \<le> 1000 * of_int k - 1" by simp
    then have "(of_int w :: rat) / of_int k \<le> (1000 * of_int k - 1) / of_int k"
      using assms(2) by (simp add: divide_right_mono)
    also have "\<dots> = 1000 - 1 / of_int k" using assms(2) by (simp add: field_simps)
    also have "\<dots> \<le> 1000 - 1 / 2 ^ 43"
    proof -
      have "(of_int k :: rat) \<le> of_int (2 ^ 43)" using assms(3) by (simp only: of_int_le_iff)
      then have "(of_int k :: rat) \<le> 2 ^ 43" by simp
      moreover have "(0 :: rat) < of_int k" using assms(2) by simp
      ultimately have "1 / (2 ^ 43 :: rat) \<le> 1 / of_int k" by (simp add: frac_le)
      then show ?thesis by simp
    qed
    finally have "fl (of_int w / of_int k) \<le> fl (1000 - 1 / 2 ^ 43)" by (rule fl_mono)
    moreover have "fl (of_int (1000 * 2 ^ 43 - 1) * 2 powi (- 43))
        = of_int (1000 * 2 ^ 43 - 1) * 2 powi (- 43)"
      by (rule fl_exact) simp_all
    then have "fl (1000 - 1 / 2 ^ 43) = 1000 - 1 / 2 ^ 43"
      by (simp add: pow43 field_simps)
    ultimately have "fl (of_int w / of_int k) \<le> 1000 - 1 / 2 ^ 43" by simp
    with a show False by simp
  qed
qed

lemma divisor_small:
  fixes w :: int
  assumes "0 \<le> w" "w < 2 ^ 52"
  shows "max 1 (w div 1000) + 1 \<le> 2 ^ 43"
proof -
  have "w \<le> 2 ^ 52" using assms(2) by simp
  then have "w div 1000 \<le> (2 ^ 52) div 1000" by (rule zdiv_mono1) simp
  also have "(2 ^ 52 :: int) div 1000 = 4503599627370" by simp
  finally have "w div 1000 \<le> 4503599627370" .
  then have "max 1 (w div 1000) \<le> 4503599627370" by simp
  moreover have "(4503599627370 :: int) + 1 \<le> 2 ^ 43" by simp
  ultimately show ?thesis by linarith
qed

lemma div1000_lower:
  fixes w :: int
  shows "1000 * (w div 1000) \<le> w"
proof -
  have "1000 * (w div 1000) + w mod 1000 = w" by (rule mult_div_mod_eq)
  moreover have "0 \<le> w mod 1000" by simp
  ultimately show ?thesis by linarith
qed

lemma div1000_upper:
  fixes w :: int
  shows "w < 1000 * (w div 1000) + 1000"
proof -
  have "1000 * (w div 1000) + w mod 1000 = w" by (rule mult_div_mod_eq)
  moreover have "w mod 1000 < 1000" by simp
  ultimately show ?thesis by linarith
qed

lemma above_quotient:
  fixes w :: int
  assumes "w div 1000 \<le> d"
  shows "\<not> 1000 * (d + 1) \<le> w"
proof -
  define q where "q = w div 1000"
  have "w < 1000 * q + 1000" unfolding q_def by (rule div1000_upper)
  moreover have "q \<le> d" unfolding q_def by (rule assms)
  ultimately show ?thesis by (simp add: algebra_simps)
qed

lemma upto_quotient:
  fixes w :: int
  assumes "d + 1 \<le> w div 1000"
  shows "1000 * (d + 1) \<le> w"
proof -
  define q where "q = w div 1000"
  have "1000 * q \<le> w" unfolding q_def by (rule div1000_lower)
  moreover have "d + 1 \<le> q" unfolding q_def by (rule assms)
  ultimately show ?thesis by (simp add: algebra_simps)
qed

lemma scale_divisor_loop_result:
  assumes "0 \<le> w" "w < 2 ^ 52" "1 \<le> d" "d \<le> max 1 (w div 1000)"
  shows "scale_divisor_loop 1000 w d = Some (Inr (max 1 (w div 1000)))"
  using assms(3,4)
proof (induction "nat (max 1 (w div 1000) - d)" arbitrary: d)
  case 0
  then have d: "d = max 1 (w div 1000)" by simp
  have k: "1 \<le> d + 1" "d + 1 \<le> 2 ^ 43"
    using "0.prems"(1) divisor_small [OF assms(1,2)] d by linarith+
  have "(2 :: int) ^ 52 \<le> 2 ^ 1023" by simp
  then have "\<bar>w\<bar> \<le> 2 ^ 1023" using assms(1,2) by linarith
  moreover have "d + 1 \<noteq> 0" using k(1) by simp
  ultimately have q: "py_true_div w (d + 1) = Inr (fl (of_int w / of_int (d + 1)))"
    by (intro py_true_div_ok)
  have "w div 1000 \<le> d" unfolding d by simp
  then have "\<not> 1000 * (d + 1) \<le> w" by (rule above_quotient)
  then have "\<not> 1000 \<le> fl (of_int w / of_int (d + 1))"
    using width_test_exact [OF assms(1) k] by blast
  then have "\<not> of_int 1000 \<le> fl (of_int w / of_int (d + 1))" by simp
  then have "scale_divisor_loop 1000 w d = Some (Inr d)"
    by (subst scale_divisor_loop.simps) (simp only: q sum.case if_False)
  then show ?case unfolding d .
next
  case (Suc n)
  then have lt: "d < max 1 (w div 1000)" by linarith
  with Suc.prems(1) have lt': "d + 1 \<le> w div 1000" by (simp add: max_def split: if_splits)
  have k: "1 \<le> d + 1" "d + 1 \<le> 2 ^ 43"
    using Suc.prems(1) divisor_small [OF assms(1,2)] lt by linarith+
  have "(2 :: int) ^ 52 \<le> 2 ^ 1023" by simp
  then have "\<bar>w\<bar> \<le> 2 ^ 1023" using assms(1,2) by linarith
  moreover have "d + 1 \<noteq> 0" using k(1) by simp
  ultimately have q: "py_true_div w (d + 1) = Inr (fl (of_int w / of_int (d + 1)))"
    by (intro py_true_div_ok)
  have "1000 * (d + 1) \<le> w" using lt' by (rule upto_quotient)
  then have "1000 \<le> fl (of_int w / of_int (d + 1))"
    using width_test_exact [OF assms(1) k] by blast
  then have t: "of_int 1000 \<le> fl (of_int w / of_int (d + 1))" by simp
  have ih: "scale_divisor_loop 1000 w (d + 1) = Some (Inr (max 1 (w div 1000)))"
  proof (rule Suc.hyps(1))
    show "n = nat (max 1 (w div 1000) - (d + 1))" using Suc.hyps(2) by linarith
    show "1 \<le> d + 1" using Suc.prems(1) by simp
    show "d + 1 \<le> max 1 (w div 1000)" using lt by simp
  qed
  have "scale_divisor_loop 1000 w d = scale_divisor_loop 1000 w (d + 1)"
    using t by (subst scale_divisor_loop.simps) (simp only: q sum.case if_True)
  then show ?case using ih by (simp only:)
qed

lemma float_div_int_ok:
  assumes "1 \<le> d" "d < 2 ^ 53"
  shows "float_div_int 1 d = Inr (fl (1 / of_int d))"
proof -
  have "(2 :: int) ^ 53 \<le> 2 ^ 1023" by simp
  then have "\<bar>d\<bar> \<le> 2 ^ 1023" using assms by linarith
  then have "py_float d = Inr (fl (of_int d))" by (rule py_float_ok)
  moreover have "fl (of_int d) = of_int d" using assms by (intro fl_of_int) simp
  ultimately show ?thesis using assms(1) by (simp add: float_div_int_def)
qed

lemma calculate_scale_factor_eq:
  assumes "0 \<le> w" "w < 2 ^ 52"
  shows "calculate_scale_factor (ImageScaler_init sf) w
           = Some (Inr (fl (1 / of_int (max 1 (w div 1000)))))"
proof -
  have "max 1 (w div 1000) < 2 ^ 53" using divisor_small [OF assms] by simp
  then have "float_div_int 1 (max 1 (w div 1000)) = Inr (fl (1 / of_int (max 1 (w div 1000))))"
    by (intro float_div_int_ok) simp_all
  then show ?thesis
    using scale_divisor_loop_result [OF assms, of 1]
    by (simp add: calculate_scale_factor_def ImageScaler_init_def)
qed

subsection \<open>The scaled width\<close>













text \<open>
  Beyond the bounds of the theorem: at width 49000 the divisor is 49 and the float
  product falls short, \<^verbatim>\<open>int(49000 * (1.0 / 49))\<close> is 999, below \<^verbatim>\<open>min_width\<close>; and an image
  of size 2000 by 1 has the scaled height 0, so \<^verbatim>\<open>img.resize\<close> raises and nothing is saved.
\<close>

lemma scale_image_width_49000:
  "scale_image_size (ImageScaler_init (1 / 4)) (49000, 1000) = Some (Inr (999, 20))"
proof -
  have "calculate_scale_factor (ImageScaler_init (1 / 4)) 49000
      = Some (Inr (fl (1 / of_int (max 1 (49000 div 1000)))))"
    by (rule calculate_scale_factor_eq) simp_all
  moreover have "max 1 ((49000 :: int) div 1000) = 49" by simp
  moreover have "int_of_product 49000 (fl (1 / of_int 49)) = Inr 999" by code_simp
  moreover have "int_of_product 1000 (fl (1 / of_int 49)) = Inr 20" by code_simp
  ultimately show ?thesis by (simp add: scale_image_size_def img_resize_def)
qed

lemma scale_image_height_zero:
  "scale_image_size (ImageScaler_init (1 / 4)) (2000, 1) = Some (Inl ValueError)"
proof -
  have "calculate_scale_factor (ImageScaler_init (1 / 4)) 2000
      = Some (Inr (fl (1 / of_int (max 1 (2000 div 1000)))))"
    by (rule calculate_scale_factor_eq) simp_all
  moreover have "max 1 ((2000 :: int) div 1000) = 2" by simp
  moreover have "int_of_product 2000 (fl (1 / of_int 2)) = Inr 1000" by code_simp
  moreover have "int_of_product 1 (fl (1 / of_int 2)) = Inr 0" by code_simp
  ultimately show ?thesis by (simp add: scale_image_size_def img_resize_def)
qed

section \<open>color_mapper.py: the occlusion interpolator \<open>process_tape_regions\<close>\<close>

text \<open>
  \<open>py_for\<close> is a \<^verbatim>\<open>for\<close> loop over a list that threads a state and stops at the first
  exception. \<open>py_slice\<close> is the list slice \<^verbatim>\<open>xs[start:stop]\<close>.
\<close>

fun py_for :: "'b list \<Rightarrow> ('b \<Rightarrow> 's \<Rightarrow> py_error + 's) \<Rightarrow> 's \<Rightarrow> py_error + 's" where
  "py_for [] body s = Inr s"
| "py_for (x # xs) body s = py_bind (body x s) (py_for xs body)"

definition slice_index :: "nat \<Rightarrow> int \<Rightarrow> nat" where
  "slice_index n i = nat (if i < 0 then max 0 (i + int n) else min i (int n))"

definition py_slice :: "'a list \<Rightarrow> int \<Rightarrow> int \<Rightarrow> 'a list" where
  "py_slice xs start stop =
     (let s = slice_index (length xs) start; e = slice_index (length xs) stop
      in take (e - s) (drop s xs))"

text \<open>
  A numpy array of shape \<open>(rows, cols)\<close> is a list of rows. \<open>np_zeros\<close> is
  \<^verbatim>\<open>np.zeros((rows, cols))\<close>, \<open>fill_column arr width start_y x v\<close> is the assignment
  \<^verbatim>\<open>arr[start_y:max_height, x] = v\<close> on an array of \<open>max_height\<close> rows (an integer index
  out of range raises \<open>IndexError\<close>, a negative one counts from the end, the slice is
  clipped), and \<open>set_pixel\<close> is \<^verbatim>\<open>arr[y, x] = v\<close>.
\<close>

definition np_zeros :: "int \<Rightarrow> int \<Rightarrow> 'a \<Rightarrow> py_error + 'a list list" where
  "np_zeros rows cols z =
     (if rows < 0 \<or> cols < 0 then Inl ValueError
      else Inr (replicate (nat rows) (replicate (nat cols) z)))"

definition axis_index :: "int \<Rightarrow> int \<Rightarrow> py_error + nat" where
  "axis_index n i =
     (if 0 \<le> i \<and> i < n then Inr (nat i)
      else if - n \<le> i \<and> i < 0 then Inr (nat (i + n))
      else Inl IndexError)"

definition fill_column :: "'a list list \<Rightarrow> int \<Rightarrow> int \<Rightarrow> int \<Rightarrow> 'a \<Rightarrow> py_error + 'a list list" where
  "fill_column arr width start_y x v =
     py_bind (axis_index width x) (\<lambda>col.
       Inr (map (\<lambda>y. if slice_index (length arr) start_y \<le> y then (arr ! y)[col := v] else arr ! y)
              [0..<length arr]))"

definition set_pixel :: "'a list list \<Rightarrow> int \<Rightarrow> int \<Rightarrow> int \<Rightarrow> 'a \<Rightarrow> py_error + 'a list list" where
  "set_pixel arr width y x v =
     py_bind (axis_index (int (length arr)) y) (\<lambda>row.
     py_bind (axis_index width x) (\<lambda>col.
       Inr (arr[row := (arr ! row)[col := v]])))"

type_synonym color = "nat \<times> nat \<times> nat"

type_synonym canvas = "color list list \<times> nat list list"

definition GREEN :: color where "GREEN = (0, 255, 0)"

definition WHITE :: color where "WHITE = (255, 255, 255)"

text \<open>
  \<open>calculate_median_height\<close>, as in the source; \<open>valid_heights\<close> is its list comprehension.
\<close>

definition valid_heights :: "int list \<Rightarrow> int \<Rightarrow> int \<Rightarrow> int list" where
  "valid_heights counts start end_col = filter (\<lambda>count. count > 0) (py_slice counts start end_col)"

definition calculate_median_height :: "int list \<Rightarrow> int \<Rightarrow> int \<Rightarrow> int" where
  "calculate_median_height counts start end_col =
     (if valid_heights counts start end_col = [] then 0
      else sort (valid_heights counts start end_col)
             ! (length (valid_heights counts start end_col) div 2))"


text \<open>
  The first loop of \<^verbatim>\<open>process_tape_regions\<close> (the original colour map), the loop of one
  green reference line, the interpolated height of one column, and the loop of one white
  trapezoid. The state of each loop is the pair of arrays \<open>(img, export_array)\<close>.
\<close>

definition draw_column :: "int \<Rightarrow> int \<Rightarrow> color \<Rightarrow> int \<Rightarrow> int \<Rightarrow> canvas \<Rightarrow> py_error + canvas" where
  "draw_column width max_height col x height cv =
     (let start_y = max_height - height
      in py_bind (fill_column (fst cv) width start_y x col) (\<lambda>img.
         py_bind (fill_column (snd cv) width start_y x 1) (\<lambda>export_array.
           Inr (img, export_array))))"

definition draw_original ::
  "int list \<Rightarrow> int \<Rightarrow> int \<Rightarrow> color \<Rightarrow> canvas \<Rightarrow> py_error + canvas" where
  "draw_original counts width max_height base_color =
     py_for (zip [0..int (length counts) - 1] counts)
       (\<lambda>(x, count) cv. if count > 0 then draw_column width max_height base_color x count cv
                         else Inr cv)"

definition draw_reference_line ::
  "int \<Rightarrow> int \<Rightarrow> int \<Rightarrow> int \<Rightarrow> int \<Rightarrow> canvas \<Rightarrow> py_error + canvas" where
  "draw_reference_line width max_height ref_height from_x to_x cv =
     (if ref_height > 0 then
        py_for (py_range from_x to_x)
          (\<lambda>x cv. py_bind (set_pixel (fst cv) width (max_height - ref_height) x GREEN)
                     (\<lambda>img. Inr (img, snd cv))) cv
      else Inr cv)"

definition interp_height :: "int \<Rightarrow> int \<Rightarrow> int \<Rightarrow> int \<Rightarrow> int \<Rightarrow> py_error + int" where
  "interp_height tape_left tape_right ref_height right_height x =
     py_bind (py_true_div (x - tape_left) (tape_right - tape_left)) (\<lambda>progress.
     py_bind (py_float (right_height - ref_height)) (\<lambda>rise.
     py_bind (py_float ref_height) (\<lambda>base.
       float_to_int (fl (base + fl (progress * rise))))))"

definition draw_trapezoid ::
  "int \<Rightarrow> int \<Rightarrow> int \<Rightarrow> int \<Rightarrow> int \<Rightarrow> int \<Rightarrow> canvas \<Rightarrow> py_error + canvas" where
  "draw_trapezoid width max_height tape_left tape_right ref_height right_height cv =
     (if ref_height > 0 \<and> right_height > 0 then
        py_for (py_range tape_left tape_right)
          (\<lambda>x cv. py_bind (interp_height tape_left tape_right ref_height right_height x)
                     (\<lambda>height. draw_column width max_height WHITE x height cv)) cv
      else Inr cv)"

definition sample_range :: "int \<Rightarrow> py_error + int" where
  "sample_range width = py_bind (int_of_product width (fl (36 / 10000))) (\<lambda>n. Inr (max 1 n))"

text \<open>
  The two height estimates of a region: the medians just left and just right of it;
  \<open>sr\<close> is the sample range.
\<close>

definition ref_heights :: "int list \<Rightarrow> int \<Rightarrow> int \<Rightarrow> int \<times> int \<Rightarrow> int \<times> int" where
  "ref_heights counts width sr edges =
     (case edges of (tape_left, tape_right) \<Rightarrow>
        (calculate_median_height counts (max 0 (tape_left - sr)) tape_left,
         calculate_median_height counts tape_right (min width (tape_right + sr))))"

definition draw_reference_lines ::
  "int list \<Rightarrow> int \<Rightarrow> int \<Rightarrow> int \<Rightarrow> int \<times> int \<Rightarrow> canvas \<Rightarrow> py_error + canvas" where
  "draw_reference_lines counts width max_height sr edges cv =
     (case edges of (tape_left, tape_right) \<Rightarrow>
        py_bind (draw_reference_line width max_height (fst (ref_heights counts width sr edges))
                   (max 0 (tape_left - sr)) tape_left cv)
          (draw_reference_line width max_height (snd (ref_heights counts width sr edges))
             tape_right (min width (tape_right + sr))))"

definition draw_region ::
  "int list \<Rightarrow> int \<Rightarrow> int \<Rightarrow> int \<Rightarrow> int \<times> int \<Rightarrow> canvas \<Rightarrow> py_error + canvas" where
  "draw_region counts width max_height sr edges cv =
     draw_trapezoid width max_height (fst edges) (snd edges)
       (fst (ref_heights counts width sr edges)) (snd (ref_heights counts width sr edges)) cv"

datatype region_output = Export "nat list list" | Picture "color list list"

definition process_canvas ::
  "int list \<Rightarrow> int \<Rightarrow> int \<Rightarrow> color \<Rightarrow> (int \<times> int) \<times> (int \<times> int) \<Rightarrow> py_error + canvas" where
  "process_canvas counts width max_height base_color tape_edges =
     py_bind (np_zeros max_height width (0, 0, 0)) (\<lambda>img.
     py_bind (np_zeros max_height width 0) (\<lambda>export_array.
     py_bind (draw_original counts width max_height base_color (img, export_array)) (\<lambda>cv.
     py_bind (sample_range width) (\<lambda>sr.
     py_bind (draw_reference_lines counts width max_height sr (fst tape_edges) cv) (\<lambda>cv.
     py_bind (draw_reference_lines counts width max_height sr (snd tape_edges) cv) (\<lambda>cv.
     py_bind (draw_region counts width max_height sr (fst tape_edges) cv)
       (draw_region counts width max_height sr (snd tape_edges))))))))"

definition process_tape_regions ::
  "int list \<Rightarrow> int \<Rightarrow> int \<Rightarrow> color \<Rightarrow> (int \<times> int) \<times> (int \<times> int) \<Rightarrow> bool \<Rightarrow> py_error + region_output" where
  "process_tape_regions counts width max_height base_color tape_edges for_export =
     py_bind (process_canvas counts width max_height base_color tape_edges) (\<lambda>cv.
       Inr (if for_export then Export (snd cv) else Picture (fst cv)))"

subsection \<open>No division by zero\<close>

lemma py_bind_no_zd:
  assumes "m \<noteq> Inl ZeroDivisionError" "\<And>x. m = Inr x \<Longrightarrow> f x \<noteq> Inl ZeroDivisionError"
  shows "py_bind m f \<noteq> Inl ZeroDivisionError"
  using assms by (cases m) simp_all

lemma py_for_no_zd:
  assumes "\<And>x s. x \<in> set xs \<Longrightarrow> body x s \<noteq> Inl ZeroDivisionError"
  shows "py_for xs body s \<noteq> Inl ZeroDivisionError"
  using assms
proof (induction xs arbitrary: s)
  case Nil
  show ?case by simp
next
  case (Cons x xs)
  show ?case unfolding py_for.simps
  proof (rule py_bind_no_zd)
    show "body x s \<noteq> Inl ZeroDivisionError" by (rule Cons.prems) simp
  next
    fix s' show "py_for xs body s' \<noteq> Inl ZeroDivisionError"
      by (rule Cons.IH, rule Cons.prems) simp
  qed
qed

lemma axis_index_no_zd: "axis_index n i \<noteq> Inl ZeroDivisionError"
  by (simp add: axis_index_def)

lemma fill_column_no_zd: "fill_column arr width start_y x v \<noteq> Inl ZeroDivisionError"
  unfolding fill_column_def by (rule py_bind_no_zd) (simp_all add: axis_index_no_zd)

lemma set_pixel_no_zd: "set_pixel arr width y x v \<noteq> Inl ZeroDivisionError"
  unfolding set_pixel_def
  by (rule py_bind_no_zd, rule axis_index_no_zd, rule py_bind_no_zd) (simp_all add: axis_index_no_zd)

lemma draw_column_no_zd: "draw_column width max_height col x height cv \<noteq> Inl ZeroDivisionError"
  unfolding draw_column_def Let_def
  by (rule py_bind_no_zd, rule fill_column_no_zd, rule py_bind_no_zd) (simp_all add: fill_column_no_zd)

lemma np_zeros_no_zd: "np_zeros rows cols z \<noteq> Inl ZeroDivisionError"
  by (simp add: np_zeros_def)

lemma py_float_no_zd: "py_float n \<noteq> Inl ZeroDivisionError"
  by (simp add: py_float_def)

lemma float_to_int_no_zd: "float_to_int x \<noteq> Inl ZeroDivisionError"
  by (simp add: float_to_int_def)

lemma int_of_product_no_zd: "int_of_product n c \<noteq> Inl ZeroDivisionError"
  unfolding int_of_product_def py_int_mul_float_def
  by (rule py_bind_no_zd, rule py_bind_no_zd) (simp_all add: py_float_no_zd float_to_int_no_zd)

lemma sample_range_no_zd: "sample_range width \<noteq> Inl ZeroDivisionError"
  unfolding sample_range_def by (rule py_bind_no_zd) (simp_all add: int_of_product_no_zd)

lemma draw_original_no_zd:
  "draw_original counts width max_height base_color cv \<noteq> Inl ZeroDivisionError"
  unfolding draw_original_def
  by (rule py_for_no_zd) (simp add: draw_column_no_zd split: prod.split)

lemma draw_reference_line_no_zd:
  "draw_reference_line width max_height ref_height from_x to_x cv \<noteq> Inl ZeroDivisionError"
proof (cases "ref_height > 0")
  case True
  have "py_for (py_range from_x to_x)
          (\<lambda>x cv. py_bind (set_pixel (fst cv) width (max_height - ref_height) x GREEN)
                     (\<lambda>img. Inr (img, snd cv))) cv \<noteq> Inl ZeroDivisionError"
    by (rule py_for_no_zd, rule py_bind_no_zd) (simp_all add: set_pixel_no_zd)
  then show ?thesis using True by (simp add: draw_reference_line_def)
next
  case False
  then show ?thesis by (simp add: draw_reference_line_def)
qed

lemma draw_reference_lines_no_zd:
  "draw_reference_lines counts width max_height sr edges cv \<noteq> Inl ZeroDivisionError"
  unfolding draw_reference_lines_def
  by (cases edges) (simp, rule py_bind_no_zd, simp_all add: draw_reference_line_no_zd)

lemma py_true_div_no_zd: "b \<noteq> 0 \<Longrightarrow> py_true_div a b \<noteq> Inl ZeroDivisionError"
  by (simp add: py_true_div_def)

lemma interp_height_no_zd:
  assumes "tape_right - tape_left \<noteq> 0"
  shows "interp_height tape_left tape_right ref_height right_height x \<noteq> Inl ZeroDivisionError"
  unfolding interp_height_def
  by (rule py_bind_no_zd, rule py_true_div_no_zd, rule assms,
      rule py_bind_no_zd, rule py_float_no_zd, rule py_bind_no_zd, rule py_float_no_zd,
      rule float_to_int_no_zd)

lemma draw_trapezoid_no_zd:
  "draw_trapezoid width max_height tape_left tape_right ref_height right_height cv
     \<noteq> Inl ZeroDivisionError"
proof (cases "ref_height > 0 \<and> right_height > 0")
  case True
  have "py_for (py_range tape_left tape_right)
          (\<lambda>x cv. py_bind (interp_height tape_left tape_right ref_height right_height x)
                     (\<lambda>height. draw_column width max_height WHITE x height cv)) cv
        \<noteq> Inl ZeroDivisionError"
  proof (rule py_for_no_zd, rule py_bind_no_zd)
    fix x :: int and s :: canvas
    assume "x \<in> set (py_range tape_left tape_right)"
    then have "tape_left \<le> x" "x < tape_right" by (simp_all add: set_py_range)
    then have "tape_right - tape_left \<noteq> 0" by simp
    then show "interp_height tape_left tape_right ref_height right_height x \<noteq> Inl ZeroDivisionError"
      by (rule interp_height_no_zd)
  next
    fix x :: int and s :: canvas and height :: int
    show "draw_column width max_height WHITE x height s \<noteq> Inl ZeroDivisionError"
      by (rule draw_column_no_zd)
  qed
  then show ?thesis using True by (simp add: draw_trapezoid_def)
next
  case False
  then have "draw_trapezoid width max_height tape_left tape_right ref_height right_height cv = Inr cv"
    unfolding draw_trapezoid_def by (simp only: if_False)
  then show ?thesis by simp
qed

lemma draw_region_no_zd:
  "draw_region counts width max_height sr edges cv \<noteq> Inl ZeroDivisionError"
  unfolding draw_region_def by (rule draw_trapezoid_no_zd)

lemma process_canvas_no_zd:
  "process_canvas counts width max_height base_color tape_edges \<noteq> Inl ZeroDivisionError"
  unfolding process_canvas_def
  by (rule py_bind_no_zd, rule np_zeros_no_zd,
      rule py_bind_no_zd, rule np_zeros_no_zd,
      rule py_bind_no_zd, rule draw_original_no_zd,
      rule py_bind_no_zd, rule sample_range_no_zd,
      rule py_bind_no_zd, rule draw_reference_lines_no_zd,
      rule py_bind_no_zd, rule draw_reference_lines_no_zd,
      rule py_bind_no_zd, rule draw_region_no_zd, rule draw_region_no_zd)

lemma py_range_empty_iff: "(py_range a b = []) = (b \<le> a)"
  unfolding py_range_def by (simp only: upto_Nil) arith

text \<open>
  C10. For every pair of regions with \<open>left_edge \<le> right_edge\<close>, and whatever the other
  arguments, \<^verbatim>\<open>process_tape_regions\<close> does not raise \<open>ZeroDivisionError\<close>: the quotient of
  the interpolation is evaluated only for the columns of \<^verbatim>\<open>range(left_edge, right_edge)\<close>,
  and that range is empty exactly when the denominator \<open>right_edge - left_edge\<close> is 0.
\<close>

theorem process_tape_regions_no_zero_division:
  assumes "l1 \<le> r1" "l2 \<le> r2"
  shows "process_tape_regions counts width max_height base_color ((l1, r1), (l2, r2)) for_export
           \<noteq> Inl ZeroDivisionError
       \<and> (py_range l1 r1 = []) = (r1 - l1 = 0)
       \<and> (py_range l2 r2 = []) = (r2 - l2 = 0)"
proof -
  have "process_tape_regions counts width max_height base_color ((l1, r1), (l2, r2)) for_export
      \<noteq> Inl ZeroDivisionError"
    unfolding process_tape_regions_def
    by (rule py_bind_no_zd, rule process_canvas_no_zd) simp
  moreover have "(py_range l1 r1 = []) = (r1 - l1 = 0)"
    using assms(1) by (auto simp add: py_range_empty_iff)
  moreover have "(py_range l2 r2 = []) = (r2 - l2 = 0)"
    using assms(2) by (auto simp add: py_range_empty_iff)
  ultimately show ?thesis by simp
qed

theorem process_tape_regions_no_zero_division_witness:
  "process_tape_regions [2, 0, 0, 4] 4 5 (255, 0, 0) ((1, 3), (4, 4)) True
     \<noteq> Inl ZeroDivisionError
   \<and> (py_range 1 3 = []) = ((3 :: int) - 1 = 0)
   \<and> (py_range 4 4 = []) = ((4 :: int) - 4 = 0)"
  by (rule process_tape_regions_no_zero_division) simp_all

subsection \<open>The median of the positive heights\<close>







end
